theory Spec2Isabelle
  imports Main "HOL-Library.AList" "HOL-Library.Word"
begin

section \<open>Library functions the ring is built on\<close>

text \<open>
  The two ring implementations (\<^verbatim>\<open>consistent_hashing.py\<close> and \<^verbatim>\<open>simple_hashing.py\<close>)
  use Python's \<^verbatim>\<open>bisect\<close> module on a list of integers, a \<^verbatim>\<open>dict\<close> from positions to
  node names, a \<^verbatim>\<open>set\<close> of node names and \<^verbatim>\<open>hashlib\<close>. Positions are Python integers
  that are never negative, modelled as \<^typ>\<open>nat\<close>. A dict is an association list with
  distinct keys in insertion order (\<^const>\<open>AList.update\<close> keeps the place of a present
  key and appends a new one, \<^const>\<open>AList.delete\<close> removes it), and a missing key is
  the exception \<open>KeyError\<close>.
\<close>

datatype error = KeyError | IndexError | StructError | ValueError

type_synonym byte = "8 word"

subsection \<open>bisect\<close>

text \<open>
  \<^verbatim>\<open>bisect.bisect_left(a, x)\<close>: \<^verbatim>\<open>lo, hi = 0, len(a)\<close>;
  \<^verbatim>\<open>while lo < hi: mid = (lo + hi) // 2; if a[mid] < x: lo = mid + 1 else: hi = mid\<close>.
\<close>

function bisect_left_loop :: "nat list \<Rightarrow> nat \<Rightarrow> nat \<Rightarrow> nat \<Rightarrow> nat" where
  "bisect_left_loop a x lo hi =
     (if lo < hi
      then (if a ! ((lo + hi) div 2) < x
            then bisect_left_loop a x ((lo + hi) div 2 + 1) hi
            else bisect_left_loop a x lo ((lo + hi) div 2))
      else lo)"
  by pat_completeness auto
termination
  by (relation "measure (\<lambda>(a, x, lo, hi). hi - lo)") auto

declare bisect_left_loop.simps [simp del]

definition bisect_left :: "nat list \<Rightarrow> nat \<Rightarrow> nat" where
  "bisect_left a x = bisect_left_loop a x 0 (length a)"

text \<open>
  \<^verbatim>\<open>bisect.bisect_right(a, x)\<close>: the same loop with the test
  \<^verbatim>\<open>if x < a[mid]: hi = mid else: lo = mid + 1\<close>.
\<close>

function bisect_right_loop :: "nat list \<Rightarrow> nat \<Rightarrow> nat \<Rightarrow> nat \<Rightarrow> nat" where
  "bisect_right_loop a x lo hi =
     (if lo < hi
      then (if x < a ! ((lo + hi) div 2)
            then bisect_right_loop a x lo ((lo + hi) div 2)
            else bisect_right_loop a x ((lo + hi) div 2 + 1) hi)
      else lo)"
  by pat_completeness auto
termination
  by (relation "measure (\<lambda>(a, x, lo, hi). hi - lo)") auto

declare bisect_right_loop.simps [simp del]

definition bisect_right :: "nat list \<Rightarrow> nat \<Rightarrow> nat" where
  "bisect_right a x = bisect_right_loop a x 0 (length a)"

text \<open>\<^verbatim>\<open>bisect.insort(a, x)\<close> is \<^verbatim>\<open>a.insert(bisect_right(a, x), x)\<close>.\<close>

definition bisect_insort :: "nat list \<Rightarrow> nat \<Rightarrow> nat list" where
  "bisect_insort a x = (let lo = bisect_right a x in take lo a @ x # drop lo a)"

text \<open>\<^verbatim>\<open>a.pop(idx)\<close> for an index in range (the only way the rings call it).\<close>

definition list_pop :: "nat list \<Rightarrow> nat \<Rightarrow> nat list" where
  "list_pop a idx = take idx a @ drop (Suc idx) a"

text \<open>
  The last three lines of the loop of \<^verbatim>\<open>remove_node\<close>:
  \<^verbatim>\<open>idx = bisect.bisect_left(a, x)\<close>;
  \<^verbatim>\<open>if idx < len(a) and a[idx] == x: a.pop(idx)\<close>.
\<close>

definition pop_position :: "nat list \<Rightarrow> nat \<Rightarrow> nat list" where
  "pop_position a x =
     (let idx = bisect_left a x
      in if idx < length a \<and> a ! idx = x then list_pop a idx else a)"

subsection \<open>Formatting a virtual-node key\<close>

text \<open>\<^verbatim>\<open>f"{node}#{i}"\<close>: the node name, a hash sign, and \<open>i\<close> in decimal.\<close>

definition digit_char :: "nat \<Rightarrow> char" where
  "digit_char d = char_of (48 + d)"

function str_nat :: "nat \<Rightarrow> string" where
  "str_nat n = (if n < 10 then [digit_char n] else str_nat (n div 10) @ [digit_char (n mod 10)])"
  by pat_completeness auto
termination
  by (relation "measure (\<lambda>n. n)") auto

declare str_nat.simps [simp del]

definition vnode_key :: "string \<Rightarrow> nat \<Rightarrow> string" where
  "vnode_key node i = node @ ''#'' @ str_nat i"

section \<open>The hash functions\<close>

text \<open>
  \<^verbatim>\<open>hashlib\<close> is outside the repository: the digest (SHA-1 in
  \<^verbatim>\<open>consistent_hashing.py\<close>, MD5 in \<^verbatim>\<open>simple_hashing.py\<close>) is a parameter, a function
  from the message bytes to the digest bytes. What the repository does with the digest is
  modelled in full. A Python string is modelled by \<^typ>\<open>string\<close>, whose characters are
  the code points 0 to 255; UTF-8 encodes a code point below 128 as itself and one from
  128 to 255 in two bytes, and encoding such a string never fails.
\<close>

definition utf8_char :: "char \<Rightarrow> byte list" where
  "utf8_char c =
     (let n = (of_char c :: nat)
      in if n < 128 then [of_nat n] else [of_nat (192 + n div 64), of_nat (128 + n mod 64)])"

definition utf8_encode :: "string \<Rightarrow> byte list" where
  "utf8_encode s = concat (map utf8_char s)"

text \<open>The bytes of a big-endian unsigned integer.\<close>

definition be_nat :: "byte list \<Rightarrow> nat" where
  "be_nat bs = foldl (\<lambda>acc b. 256 * acc + unat b) 0 bs"

text \<open>
  \<^verbatim>\<open>struct.unpack('>Q', b)[0]\<close>: an unsigned big-endian 64-bit integer from exactly
  eight bytes, \<^verbatim>\<open>struct.error\<close> for any other length.
\<close>

definition unpack_Q :: "byte list \<Rightarrow> error + nat" where
  "unpack_Q b = (if length b = 8 then Inr (be_nat b) else Inl StructError)"

text \<open>
  \<^verbatim>\<open>HashFunction.hash\<close> of \<^verbatim>\<open>consistent_hashing.py\<close>:
  \<^verbatim>\<open>hash_bytes = hashlib.sha1(key.encode('utf-8')).digest()\<close>;
  \<^verbatim>\<open>return struct.unpack('>Q', hash_bytes[:8])[0]\<close>.
\<close>

definition HashFunction_hash :: "(byte list \<Rightarrow> byte list) \<Rightarrow> string \<Rightarrow> error + nat" where
  "HashFunction_hash sha1 key =
     (let hash_bytes = sha1 (utf8_encode key) in unpack_Q (take 8 hash_bytes))"

text \<open>
  \<^verbatim>\<open>ConsistentHashRing._hash\<close> of \<^verbatim>\<open>simple_hashing.py\<close>:
  \<^verbatim>\<open>int(hashlib.md5(key.encode()).hexdigest(), 16)\<close>. The hex digest writes every
  byte as two lower-case hexadecimal digits; \<^verbatim>\<open>int(s, 16)\<close> is modelled on strings of
  hexadecimal digits, the only ones it is given here, and raises \<^verbatim>\<open>ValueError\<close> on an
  empty string.
\<close>

definition hex_digit :: "nat \<Rightarrow> char" where
  "hex_digit d = (if d < 10 then char_of (48 + d) else char_of (87 + d))"

definition hexdigest :: "byte list \<Rightarrow> string" where
  "hexdigest bs = concat (map (\<lambda>b. [hex_digit (unat b div 16), hex_digit (unat b mod 16)]) bs)"

definition hex_value :: "char \<Rightarrow> nat option" where
  "hex_value c =
     (let n = (of_char c :: nat)
      in if 48 \<le> n \<and> n \<le> 57 then Some (n - 48)
         else if 97 \<le> n \<and> n \<le> 102 then Some (n - 87)
         else if 65 \<le> n \<and> n \<le> 70 then Some (n - 55)
         else None)"

fun int16_loop :: "nat \<Rightarrow> string \<Rightarrow> error + nat" where
  "int16_loop acc [] = Inr acc"
| "int16_loop acc (c # cs) =
     (case hex_value c of None \<Rightarrow> Inl ValueError | Some d \<Rightarrow> int16_loop (16 * acc + d) cs)"

definition int16 :: "string \<Rightarrow> error + nat" where
  "int16 s = (if s = [] then Inl ValueError else int16_loop 0 s)"

definition simple_hash :: "(byte list \<Rightarrow> byte list) \<Rightarrow> string \<Rightarrow> error + nat" where
  "simple_hash md5 key = int16 (hexdigest (md5 (utf8_encode key)))"

text \<open>
  The digests that \<^verbatim>\<open>hashlib\<close> returns for the empty message, the first test vector
  of SHA-1 and of MD5: \<^verbatim>\<open>da39a3ee5e6b4b0d3255bfef95601890afd80709\<close> and
  \<^verbatim>\<open>d41d8cd98f00b204e9800998ecf8427e\<close>.
\<close>

definition sha1_empty_digest :: "byte list" where
  "sha1_empty_digest =
     [218, 57, 163, 238, 94, 107, 75, 13, 50, 85, 191, 239, 149, 96, 24, 144, 175, 216, 7, 9]"

definition md5_empty_digest :: "byte list" where
  "md5_empty_digest = [212, 29, 140, 217, 143, 0, 178, 4, 233, 128, 9, 152, 236, 248, 66, 126]"

section \<open>The ring\<close>

text \<open>
  The state of a \<^verbatim>\<open>ConsistentHashRing\<close> (both files have the same fields;
  \<^verbatim>\<open>replicas\<close> is called \<^verbatim>\<open>num_virtual_nodes\<close> in \<^verbatim>\<open>simple_hashing.py\<close>). The ring
  operations take the hash function \<open>h\<close> from strings to positions as a parameter:
  \<^verbatim>\<open>self.hash_func.hash\<close> in one file and \<^verbatim>\<open>self._hash\<close> in the other, both of
  which return a position for every key when the digest has its length.
\<close>

record ring_state =
  replicas :: int
  ring :: "(nat \<times> string) list"
  sorted_keys :: "nat list"
  nodes :: "string set"

definition empty_ring :: "int \<Rightarrow> ring_state" where
  "empty_ring r = \<lparr>replicas = r, ring = [], sorted_keys = [], nodes = {}\<rparr>"

text \<open>
  The body of the loop of \<^verbatim>\<open>add_node\<close>, the same in both files:
  \<^verbatim>\<open>hash_val = hash(f"{node}#{i}")\<close>; \<^verbatim>\<open>self.ring[hash_val] = node\<close>;
  \<^verbatim>\<open>bisect.insort(self.sorted_keys, hash_val)\<close>.
\<close>

definition add_step :: "(string \<Rightarrow> nat) \<Rightarrow> string \<Rightarrow> ring_state \<Rightarrow> nat \<Rightarrow> ring_state" where
  "add_step h node st i =
     (let hash_val = h (vnode_key node i)
      in st\<lparr>ring := AList.update hash_val node (ring st),
             sorted_keys := bisect_insort (sorted_keys st) hash_val\<rparr>)"

text \<open>\<^verbatim>\<open>range(self.replicas)\<close> is empty for a count that is zero or negative.\<close>

definition py_range :: "int \<Rightarrow> nat list" where
  "py_range r = [0..<nat r]"

text \<open>\<^verbatim>\<open>add_node\<close> of \<^verbatim>\<open>consistent_hashing.py\<close>: no test whether the node is active.\<close>

definition ch_add_node :: "(string \<Rightarrow> nat) \<Rightarrow> ring_state \<Rightarrow> string \<Rightarrow> ring_state" where
  "ch_add_node h st node =
     foldl (add_step h node) (st\<lparr>nodes := insert node (nodes st)\<rparr>) (py_range (replicas st))"

text \<open>\<^verbatim>\<open>add_node\<close> of \<^verbatim>\<open>simple_hashing.py\<close>: returns at once for an active node.\<close>

definition sh_add_node :: "(string \<Rightarrow> nat) \<Rightarrow> ring_state \<Rightarrow> string \<Rightarrow> ring_state" where
  "sh_add_node h st node =
     (if node \<in> nodes st then st
      else foldl (add_step h node) (st\<lparr>nodes := insert node (nodes st)\<rparr>) (py_range (replicas st)))"

text \<open>
  The body of the loop of \<^verbatim>\<open>remove_node\<close>, the same in both files: the position is
  deleted from the dict when it is a key, whoever owns it, and one occurrence is popped
  from the sorted list when \<^verbatim>\<open>bisect_left\<close> finds it.
\<close>

definition remove_step :: "(string \<Rightarrow> nat) \<Rightarrow> string \<Rightarrow> ring_state \<Rightarrow> nat \<Rightarrow> ring_state" where
  "remove_step h node st i =
     (let hash_val = h (vnode_key node i);
          ring1 = (if hash_val \<in> fst ` set (ring st) then AList.delete hash_val (ring st)
                   else ring st);
          keys1 = pop_position (sorted_keys st) hash_val
      in st\<lparr>ring := ring1, sorted_keys := keys1\<rparr>)"

definition remove_node :: "(string \<Rightarrow> nat) \<Rightarrow> ring_state \<Rightarrow> string \<Rightarrow> ring_state" where
  "remove_node h st node =
     (if node \<notin> nodes st then st
      else foldl (remove_step h node) (st\<lparr>nodes := nodes st - {node}\<rparr>) (py_range (replicas st)))"

text \<open>
  \<^verbatim>\<open>self.ring[self.sorted_keys[idx]]\<close>: \<open>IndexError\<close> for an index out of range,
  \<open>KeyError\<close> for a position that is not a key of the dict.
\<close>

definition ring_at :: "ring_state \<Rightarrow> nat \<Rightarrow> error + string option" where
  "ring_at st idx =
     (if idx < length (sorted_keys st)
      then (case map_of (ring st) (sorted_keys st ! idx) of
              None \<Rightarrow> Inl KeyError
            | Some node \<Rightarrow> Inr (Some node))
      else Inl IndexError)"

text \<open>
  \<^verbatim>\<open>get_node\<close> of \<^verbatim>\<open>consistent_hashing.py\<close> searches with \<^verbatim>\<open>bisect_left\<close>; the result
  \<open>Inr None\<close> is Python's \<^verbatim>\<open>None\<close>.
\<close>

definition ch_get_node :: "(string \<Rightarrow> nat) \<Rightarrow> ring_state \<Rightarrow> string \<Rightarrow> error + string option" where
  "ch_get_node h st key =
     (if ring st = [] then Inr None
      else (let hash_val = h key;
                idx = bisect_left (sorted_keys st) hash_val;
                idx' = (if idx = length (sorted_keys st) then 0 else idx)
            in ring_at st idx'))"

text \<open>\<^verbatim>\<open>get_node\<close> of \<^verbatim>\<open>simple_hashing.py\<close> searches with \<^verbatim>\<open>bisect_right\<close>.\<close>

definition sh_get_node :: "(string \<Rightarrow> nat) \<Rightarrow> ring_state \<Rightarrow> string \<Rightarrow> error + string option" where
  "sh_get_node h st key =
     (if ring st = [] then Inr None
      else (let key_pos = h key;
                idx = bisect_right (sorted_keys st) key_pos;
                idx' = (if idx = length (sorted_keys st) then 0 else idx)
            in ring_at st idx'))"

subsection \<open>Sequences of calls, and the invariants of the data model\<close>

text \<open>The positions of the virtual nodes of a node, in the order of the loops.\<close>

definition vpos :: "(string \<Rightarrow> nat) \<Rightarrow> int \<Rightarrow> string \<Rightarrow> nat list" where
  "vpos h r node = map (\<lambda>i. h (vnode_key node i)) (py_range r)"

text \<open>
  Invariant I2 of the data model: the ordered sequence is strictly increasing (sorted and
  without duplicates) and holds exactly the keys of the mapping. The last conjunct says
  that the association list is a dict: no key twice.
\<close>

definition ring_wf :: "ring_state \<Rightarrow> bool" where
  "ring_wf st \<longleftrightarrow>
     sorted (sorted_keys st) \<and> distinct (sorted_keys st) \<and>
     set (sorted_keys st) = fst ` set (ring st) \<and> distinct (map fst (ring st))"

datatype op = Add string | Remove string

fun op_node :: "op \<Rightarrow> string" where
  "op_node (Add n) = n"
| "op_node (Remove n) = n"

fun ch_apply :: "(string \<Rightarrow> nat) \<Rightarrow> ring_state \<Rightarrow> op \<Rightarrow> ring_state" where
  "ch_apply h st (Add n) = ch_add_node h st n"
| "ch_apply h st (Remove n) = remove_node h st n"

fun sh_apply :: "(string \<Rightarrow> nat) \<Rightarrow> ring_state \<Rightarrow> op \<Rightarrow> ring_state" where
  "sh_apply h st (Add n) = sh_add_node h st n"
| "sh_apply h st (Remove n) = remove_node h st n"

definition ch_run :: "(string \<Rightarrow> nat) \<Rightarrow> ring_state \<Rightarrow> op list \<Rightarrow> ring_state" where
  "ch_run h st ops = foldl (ch_apply h) st ops"

definition sh_run :: "(string \<Rightarrow> nat) \<Rightarrow> ring_state \<Rightarrow> op list \<Rightarrow> ring_state" where
  "sh_run h st ops = foldl (sh_apply h) st ops"

text \<open>No two virtual nodes of the given nodes are hashed to the same position.\<close>

definition no_collision :: "(string \<Rightarrow> nat) \<Rightarrow> int \<Rightarrow> string list \<Rightarrow> bool" where
  "no_collision h r ns = distinct (concat (map (vpos h r) (remdups ns)))"

text \<open>
  Every entry of the mapping belongs to an active node and sits at one of the positions
  of that node, and every position of an active node is mapped to it.
\<close>

definition placed :: "(string \<Rightarrow> nat) \<Rightarrow> ring_state \<Rightarrow> bool" where
  "placed h st \<longleftrightarrow>
     distinct (map fst (ring st)) \<and>
     (\<forall>p m. map_of (ring st) p = Some m \<longleftrightarrow>
        (m \<in> nodes st \<and> p \<in> set (vpos h (replicas st) m)))"

text \<open>The positions of the nodes of a set, seen node by node.\<close>

definition separate :: "(string \<Rightarrow> nat) \<Rightarrow> int \<Rightarrow> string set \<Rightarrow> bool" where
  "separate h r N \<longleftrightarrow>
     (\<forall>n\<in>N. distinct (vpos h r n)) \<and>
     (\<forall>n\<in>N. \<forall>m\<in>N. n \<noteq> m \<longrightarrow> set (vpos h r n) \<inter> set (vpos h r m) = {})"

text \<open>
  The invariant that holds whatever the hash function does: the ordered sequence is
  sorted and holds every key of the mapping (it may hold more, and some twice).
\<close>

definition ring_weak :: "ring_state \<Rightarrow> bool" where
  "ring_weak st \<longleftrightarrow>
     sorted (sorted_keys st) \<and> distinct (map fst (ring st)) \<and>
     fst ` set (ring st) \<subseteq> set (sorted_keys st)"

text \<open>A sequence of calls that never adds a node that is active at that moment.\<close>

fun no_readd :: "string set \<Rightarrow> op list \<Rightarrow> bool" where
  "no_readd act [] = True"
| "no_readd act (Add n # ops) = (n \<notin> act \<and> no_readd (insert n act) ops)"
| "no_readd act (Remove n # ops) = no_readd (act - {n}) ops"

text \<open>
  The two search policies in the words of the specification. Policy A: the smallest
  position greater than or equal to the key's position, and the smallest position of all
  when none qualifies. Policy B: the same with strictly greater.
\<close>

definition policy_A_position :: "nat list \<Rightarrow> nat \<Rightarrow> nat" where
  "policy_A_position ps p =
     (if filter (\<lambda>q. p \<le> q) ps = [] then Min (set ps) else Min (set (filter (\<lambda>q. p \<le> q) ps)))"

definition policy_B_position :: "nat list \<Rightarrow> nat \<Rightarrow> nat" where
  "policy_B_position ps p =
     (if filter (\<lambda>q. p < q) ps = [] then Min (set ps) else Min (set (filter (\<lambda>q. p < q) ps)))"

section \<open>The storage service\<close>







subsection \<open>A stand-in hash function for concrete runs\<close>

text \<open>
  The digests are parameters, and two different virtual-node keys with the same 64-bit
  position cannot be written down for SHA-1. The ring of \<^verbatim>\<open>consistent_hashing.py\<close>
  keeps its hash function in the field \<^verbatim>\<open>hash_func\<close> and calls nothing but its
  \<^verbatim>\<open>hash\<close> method. Concrete runs therefore use a stand-in for \<open>h\<close>: the length of the
  key. Under it \<^verbatim>\<open>"A#0"\<close> and \<^verbatim>\<open>"B#0"\<close> collide at
  position 3, and \<^verbatim>\<open>"A#0"\<close>, \<^verbatim>\<open>"BB#0"\<close>, \<^verbatim>\<open>"CCC#0"\<close> are placed at 3, 4 and 5.
\<close>

definition len_hash :: "string \<Rightarrow> nat" where
  "len_hash key = length key"

section \<open>Properties\<close>

subsection \<open>Binary search on a sorted list\<close>

lemma bisect_left_loop_spec:
  "sorted a \<Longrightarrow> lo \<le> hi \<Longrightarrow> hi \<le> length a \<Longrightarrow>
   (\<forall>i<lo. a ! i < x) \<Longrightarrow> (\<forall>i. hi \<le> i \<and> i < length a \<longrightarrow> x \<le> a ! i) \<Longrightarrow>
   lo \<le> bisect_left_loop a x lo hi \<and> bisect_left_loop a x lo hi \<le> hi \<and>
   (\<forall>i<bisect_left_loop a x lo hi. a ! i < x) \<and>
   (\<forall>i. bisect_left_loop a x lo hi \<le> i \<and> i < length a \<longrightarrow> x \<le> a ! i)"
proof (induction a x lo hi rule: bisect_left_loop.induct)
  case (1 a x lo hi)
  let ?mid = "(lo + hi) div 2"
  show ?case
  proof (cases "lo < hi")
    case False
    then have "bisect_left_loop a x lo hi = lo"
      by (simp add: bisect_left_loop.simps [of a x lo hi])
    with False "1.prems" show ?thesis by simp
  next
    case True
    then have mid: "lo \<le> ?mid" "?mid < hi" by auto
    show ?thesis
    proof (cases "a ! ?mid < x")
      case less: True
      have below: "\<forall>i<?mid + 1. a ! i < x"
      proof (intro allI impI)
        fix i assume "i < ?mid + 1"
        then have "i \<le> ?mid" by simp
        moreover have "?mid < length a" using mid "1.prems" by linarith
        ultimately have "a ! i \<le> a ! ?mid"
          using \<open>sorted a\<close> by (simp add: sorted_iff_nth_mono)
        with less show "a ! i < x" by simp
      qed
      have "?mid + 1 \<le> hi" using mid by simp
      from "1.IH"(1) [OF True less "1.prems"(1) this "1.prems"(3) below "1.prems"(5)]
      show ?thesis using True less mid by (simp add: bisect_left_loop.simps [of a x lo hi])
    next
      case geq: False
      have above: "\<forall>i. ?mid \<le> i \<and> i < length a \<longrightarrow> x \<le> a ! i"
      proof (intro allI impI)
        fix i assume "?mid \<le> i \<and> i < length a"
        then have "a ! ?mid \<le> a ! i"
          using \<open>sorted a\<close> by (simp add: sorted_iff_nth_mono)
        with geq show "x \<le> a ! i" by simp
      qed
      have "?mid \<le> length a" using mid "1.prems" by linarith
      from "1.IH"(2) [OF True geq "1.prems"(1) mid(1) this "1.prems"(4) above]
      show ?thesis using True geq mid by (simp add: bisect_left_loop.simps [of a x lo hi])
    qed
  qed
qed


lemma bisect_right_loop_spec:
  "sorted a \<Longrightarrow> lo \<le> hi \<Longrightarrow> hi \<le> length a \<Longrightarrow>
   (\<forall>i<lo. a ! i \<le> x) \<Longrightarrow> (\<forall>i. hi \<le> i \<and> i < length a \<longrightarrow> x < a ! i) \<Longrightarrow>
   lo \<le> bisect_right_loop a x lo hi \<and> bisect_right_loop a x lo hi \<le> hi \<and>
   (\<forall>i<bisect_right_loop a x lo hi. a ! i \<le> x) \<and>
   (\<forall>i. bisect_right_loop a x lo hi \<le> i \<and> i < length a \<longrightarrow> x < a ! i)"
proof (induction a x lo hi rule: bisect_right_loop.induct)
  case (1 a x lo hi)
  let ?mid = "(lo + hi) div 2"
  show ?case
  proof (cases "lo < hi")
    case False
    then have "bisect_right_loop a x lo hi = lo"
      by (simp add: bisect_right_loop.simps [of a x lo hi])
    with False "1.prems" show ?thesis by simp
  next
    case True
    then have mid: "lo \<le> ?mid" "?mid < hi" by auto
    show ?thesis
    proof (cases "x < a ! ?mid")
      case greater: True
      have above: "\<forall>i. ?mid \<le> i \<and> i < length a \<longrightarrow> x < a ! i"
      proof (intro allI impI)
        fix i assume "?mid \<le> i \<and> i < length a"
        then have "a ! ?mid \<le> a ! i"
          using \<open>sorted a\<close> by (simp add: sorted_iff_nth_mono)
        with greater show "x < a ! i" by simp
      qed
      have "?mid \<le> length a" using mid "1.prems" by linarith
      from "1.IH"(1) [OF True greater "1.prems"(1) mid(1) this "1.prems"(4) above]
      show ?thesis using True greater mid
        by (simp add: bisect_right_loop.simps [of a x lo hi])
    next
      case leq: False
      have below: "\<forall>i<?mid + 1. a ! i \<le> x"
      proof (intro allI impI)
        fix i assume "i < ?mid + 1"
        then have "i \<le> ?mid" by simp
        moreover have "?mid < length a" using mid "1.prems" by linarith
        ultimately have "a ! i \<le> a ! ?mid"
          using \<open>sorted a\<close> by (simp add: sorted_iff_nth_mono)
        with leq show "a ! i \<le> x" by simp
      qed
      have "?mid + 1 \<le> hi" using mid by simp
      from "1.IH"(2) [OF True leq "1.prems"(1) this "1.prems"(3) below "1.prems"(5)]
      show ?thesis using True leq mid
        by (simp add: bisect_right_loop.simps [of a x lo hi])
    qed
  qed
qed

lemma bisect_left_nth:
  assumes "sorted a"
  shows "bisect_left a x \<le> length a"
    and "i < bisect_left a x \<Longrightarrow> a ! i < x"
    and "bisect_left a x \<le> i \<Longrightarrow> i < length a \<Longrightarrow> x \<le> a ! i"
  using bisect_left_loop_spec [of a 0 "length a" x] assms
  unfolding bisect_left_def by simp_all

lemma bisect_right_nth:
  assumes "sorted a"
  shows "bisect_right a x \<le> length a"
    and "i < bisect_right a x \<Longrightarrow> a ! i \<le> x"
    and "bisect_right a x \<le> i \<Longrightarrow> i < length a \<Longrightarrow> x < a ! i"
  using bisect_right_loop_spec [of a 0 "length a" x] assms
  unfolding bisect_right_def by simp_all

lemma in_take_nth: "y \<in> set (take r a) \<Longrightarrow> \<exists>i. i < r \<and> i < length a \<and> a ! i = y"
proof -
  assume "y \<in> set (take r a)"
  then obtain i where "i < length (take r a)" "take r a ! i = y"
    unfolding in_set_conv_nth by blast
  then show ?thesis by (intro exI [of _ i]) simp
qed

lemma in_drop_nth: "y \<in> set (drop r a) \<Longrightarrow> \<exists>i. r \<le> i \<and> i < length a \<and> a ! i = y"
proof -
  assume "y \<in> set (drop r a)"
  then obtain i where i: "i < length (drop r a)" "drop r a ! i = y"
    unfolding in_set_conv_nth by blast
  then have "r + i < length a" by simp
  moreover from i this have "a ! (r + i) = y" by simp
  ultimately show ?thesis by (intro exI [of _ "r + i"]) simp
qed

lemma bisect_left_le: "sorted a \<Longrightarrow> bisect_left a x \<le> length a"
  by (rule bisect_left_nth(1))

lemma bisect_left_take:
  assumes "sorted a" "y \<in> set (take (bisect_left a x) a)"
  shows "y < x"
proof -
  from in_take_nth [OF assms(2)] obtain i where "i < bisect_left a x" "a ! i = y" by blast
  with bisect_left_nth(2) [OF assms(1), of i x] show ?thesis by simp
qed

lemma bisect_left_drop:
  assumes "sorted a" "y \<in> set (drop (bisect_left a x) a)"
  shows "x \<le> y"
proof -
  from in_drop_nth [OF assms(2)] obtain i
    where "bisect_left a x \<le> i" "i < length a" "a ! i = y" by blast
  with bisect_left_nth(3) [OF assms(1), of x i] show ?thesis by simp
qed

lemma bisect_right_le: "sorted a \<Longrightarrow> bisect_right a x \<le> length a"
  by (rule bisect_right_nth(1))

lemma bisect_right_take:
  assumes "sorted a" "y \<in> set (take (bisect_right a x) a)"
  shows "y \<le> x"
proof -
  from in_take_nth [OF assms(2)] obtain i where "i < bisect_right a x" "a ! i = y" by blast
  with bisect_right_nth(2) [OF assms(1), of i x] show ?thesis by simp
qed

lemma bisect_right_drop:
  assumes "sorted a" "y \<in> set (drop (bisect_right a x) a)"
  shows "x < y"
proof -
  from in_drop_nth [OF assms(2)] obtain i
    where "bisect_right a x \<le> i" "i < length a" "a ! i = y" by blast
  with bisect_right_nth(3) [OF assms(1), of x i] show ?thesis by simp
qed

lemma set_bisect_insort: "set (bisect_insort a x) = insert x (set a)"
proof -
  have "set (take (bisect_right a x) a) \<union> set (drop (bisect_right a x) a) = set a"
    unfolding set_append [symmetric] by simp
  then show ?thesis by (auto simp: bisect_insort_def Let_def)
qed

lemma length_bisect_insort: "length (bisect_insort a x) = Suc (length a)"
  by (simp add: bisect_insort_def Let_def)

lemma sorted_bisect_insort: "sorted a \<Longrightarrow> sorted (bisect_insort a x)"
proof -
  assume s: "sorted a"
  let ?r = "bisect_right a x"
  have "sorted (take ?r a @ drop ?r a)" using s by simp
  then have parts: "sorted (take ?r a)" "sorted (drop ?r a)"
    "\<forall>u\<in>set (take ?r a). \<forall>v\<in>set (drop ?r a). u \<le> v"
    unfolding sorted_append by blast+
  have lo: "\<forall>u\<in>set (take ?r a). u \<le> x" using bisect_right_take [OF s] by blast
  have hi: "\<forall>v\<in>set (drop ?r a). x \<le> v" using bisect_right_drop [OF s] less_imp_le by blast
  have "sorted (x # drop ?r a)" using parts(2) hi by simp
  moreover have "\<forall>u\<in>set (take ?r a). \<forall>v\<in>set (x # drop ?r a). u \<le> v"
    using lo parts(3) by simp
  ultimately have "sorted (take ?r a @ x # drop ?r a)"
    using parts(1) unfolding sorted_append by blast
  then show ?thesis by (simp add: bisect_insort_def Let_def)
qed

lemma distinct_bisect_insort:
  "distinct a \<Longrightarrow> x \<notin> set a \<Longrightarrow> distinct (bisect_insort a x)"
proof -
  assume d: "distinct a" and nx: "x \<notin> set a"
  let ?r = "bisect_right a x"
  have "distinct (take ?r a @ drop ?r a)" using d by simp
  then have parts: "distinct (take ?r a)" "distinct (drop ?r a)"
    "set (take ?r a) \<inter> set (drop ?r a) = {}"
    unfolding distinct_append by blast+
  have "x \<notin> set (take ?r a)" "x \<notin> set (drop ?r a)"
    using nx by (auto dest: in_set_takeD in_set_dropD)
  with parts show ?thesis by (simp add: bisect_insort_def Let_def)
qed

lemma pop_position_remove1: "sorted a \<Longrightarrow> pop_position a x = remove1 x a"
proof -
  assume s: "sorted a"
  let ?r = "bisect_left a x"
  have notin: "x \<notin> set (take ?r a)" using bisect_left_take [OF s, of x x] by auto
  show ?thesis
  proof (cases "?r < length a \<and> a ! ?r = x")
    case True
    then have "a = take ?r a @ x # drop (Suc ?r) a"
      using id_take_nth_drop [of ?r a] by simp
    then have "remove1 x a = remove1 x (take ?r a @ x # drop (Suc ?r) a)" by simp
    also have "\<dots> = take ?r a @ drop (Suc ?r) a"
      using notin by (simp add: remove1_append)
    finally show ?thesis using True by (simp add: pop_position_def list_pop_def Let_def)
  next
    case False
    have "x \<notin> set a"
    proof
      assume "x \<in> set a"
      then obtain i where i: "i < length a" "a ! i = x" unfolding in_set_conv_nth by blast
      have "\<not> i < ?r" using bisect_left_nth(2) [OF s, of i x] i by auto
      then have ri: "?r \<le> i" by simp
      then have lt: "?r < length a" using i by simp
      have "a ! ?r \<le> a ! i" using sorted_nth_mono [OF s ri i(1)] .
      moreover have "x \<le> a ! ?r" using bisect_left_nth(3) [OF s, of x ?r] lt by simp
      ultimately have "a ! ?r = x" using i by simp
      with lt False show False by simp
    qed
    moreover have "pop_position a x = a"
      using False unfolding pop_position_def Let_def by (simp only: if_False)
    ultimately show ?thesis by (simp add: remove1_idem)
  qed
qed

subsection \<open>One pass of the loops\<close>

lemma add_step_simps:
  "ring (add_step h n st i) = AList.update (h (vnode_key n i)) n (ring st)"
  "sorted_keys (add_step h n st i) = bisect_insort (sorted_keys st) (h (vnode_key n i))"
  "nodes (add_step h n st i) = nodes st"
  "replicas (add_step h n st i) = replicas st"
  by (simp_all add: add_step_def Let_def)

lemma remove_step_simps:
  "ring (remove_step h n st i) = AList.delete (h (vnode_key n i)) (ring st)"
  "sorted_keys (remove_step h n st i) = pop_position (sorted_keys st) (h (vnode_key n i))"
  "nodes (remove_step h n st i) = nodes st"
  "replicas (remove_step h n st i) = replicas st"
  by (simp_all add: remove_step_def Let_def)

lemma add_loop_fields:
  "nodes (foldl (add_step h n) st js) = nodes st"
  "replicas (foldl (add_step h n) st js) = replicas st"
  by (induction js arbitrary: st) (simp_all add: add_step_simps)

lemma add_loop_sorted:
  "sorted (sorted_keys st) \<Longrightarrow> sorted (sorted_keys (foldl (add_step h n) st js))"
  by (induction js arbitrary: st) (simp_all add: add_step_simps sorted_bisect_insort)

lemma add_loop_set:
  "set (sorted_keys (foldl (add_step h n) st js)) =
     set (sorted_keys st) \<union> (\<lambda>i. h (vnode_key n i)) ` set js"
  by (induction js arbitrary: st) (simp_all add: add_step_simps set_bisect_insort)

lemma add_loop_length:
  "length (sorted_keys (foldl (add_step h n) st js)) = length (sorted_keys st) + length js"
  by (induction js arbitrary: st) (simp_all add: add_step_simps length_bisect_insort)

lemma add_loop_map_of:
  "map_of (ring (foldl (add_step h n) st js)) p =
     (if p \<in> (\<lambda>i. h (vnode_key n i)) ` set js then Some n else map_of (ring st) p)"
  by (induction js arbitrary: st) (auto simp: add_step_simps update_conv')

lemma add_loop_keys:
  "fst ` set (ring (foldl (add_step h n) st js)) =
     fst ` set (ring st) \<union> (\<lambda>i. h (vnode_key n i)) ` set js"
  by (induction js arbitrary: st) (simp_all add: add_step_simps dom_update)

lemma add_loop_distinct_ring:
  "distinct (map fst (ring st)) \<Longrightarrow> distinct (map fst (ring (foldl (add_step h n) st js)))"
  by (induction js arbitrary: st) (simp_all add: add_step_simps distinct_update)

lemma add_loop_distinct_keys:
  "distinct (sorted_keys st) \<Longrightarrow> distinct (map (\<lambda>i. h (vnode_key n i)) js) \<Longrightarrow>
   (\<lambda>i. h (vnode_key n i)) ` set js \<inter> set (sorted_keys st) = {} \<Longrightarrow>
   distinct (sorted_keys (foldl (add_step h n) st js))"
proof (induction js arbitrary: st)
  case Nil
  then show ?case by simp
next
  case (Cons j js)
  let ?st = "add_step h n st j"
  have "distinct (sorted_keys ?st)"
    using Cons.prems by (simp add: add_step_simps distinct_bisect_insort disjoint_iff)
  moreover have "distinct (map (\<lambda>i. h (vnode_key n i)) js)" using Cons.prems by simp
  moreover have "(\<lambda>i. h (vnode_key n i)) ` set js \<inter> set (sorted_keys ?st) = {}"
    using Cons.prems by (auto simp: add_step_simps set_bisect_insort)
  ultimately show ?case using Cons.IH [of ?st] by simp
qed

lemma remove_loop_fields:
  "nodes (foldl (remove_step h n) st js) = nodes st"
  "replicas (foldl (remove_step h n) st js) = replicas st"
  by (induction js arbitrary: st) (simp_all add: remove_step_simps)

lemma remove_loop_sorted:
  "sorted (sorted_keys st) \<Longrightarrow> sorted (sorted_keys (foldl (remove_step h n) st js))"
  by (induction js arbitrary: st)
     (simp_all add: remove_step_simps pop_position_remove1 sorted_remove1)

lemma remove_loop_map_of:
  "map_of (ring (foldl (remove_step h n) st js)) p =
     (if p \<in> (\<lambda>i. h (vnode_key n i)) ` set js then None else map_of (ring st) p)"
  by (induction js arbitrary: st) (auto simp: remove_step_simps delete_conv')

lemma remove_loop_distinct_ring:
  "distinct (map fst (ring st)) \<Longrightarrow> distinct (map fst (ring (foldl (remove_step h n) st js)))"
  by (induction js arbitrary: st) (simp_all add: remove_step_simps distinct_delete)

lemma remove_loop_keys_subset:
  "sorted (sorted_keys st) \<Longrightarrow>
   set (sorted_keys st) - (\<lambda>i. h (vnode_key n i)) ` set js
     \<subseteq> set (sorted_keys (foldl (remove_step h n) st js))"
proof (induction js arbitrary: st)
  case Nil
  then show ?case by simp
next
  case (Cons j js)
  let ?st = "remove_step h n st j"
  have sk: "sorted_keys ?st = remove1 (h (vnode_key n j)) (sorted_keys st)"
    using Cons.prems by (simp add: remove_step_simps pop_position_remove1)
  then have "sorted (sorted_keys ?st)" using Cons.prems by (simp add: sorted_remove1)
  from Cons.IH [OF this]
  have "set (sorted_keys ?st) - (\<lambda>i. h (vnode_key n i)) ` set js
          \<subseteq> set (sorted_keys (foldl (remove_step h n) st (j # js)))" by simp
  moreover have "set (sorted_keys st) - {h (vnode_key n j)} \<subseteq> set (sorted_keys ?st)"
  proof
    fix y assume "y \<in> set (sorted_keys st) - {h (vnode_key n j)}"
    then have "y \<noteq> h (vnode_key n j)" "y \<in> set (sorted_keys st)" by auto
    then show "y \<in> set (sorted_keys ?st)" unfolding sk by (simp add: in_set_remove1)
  qed
  ultimately show ?case by auto
qed

lemma remove_loop_keys_distinct:
  "sorted (sorted_keys st) \<Longrightarrow> distinct (sorted_keys st) \<Longrightarrow>
   distinct (sorted_keys (foldl (remove_step h n) st js)) \<and>
   set (sorted_keys (foldl (remove_step h n) st js))
     = set (sorted_keys st) - (\<lambda>i. h (vnode_key n i)) ` set js"
proof (induction js arbitrary: st)
  case Nil
  then show ?case by simp
next
  case (Cons j js)
  let ?st = "remove_step h n st j"
  have sk: "sorted_keys ?st = remove1 (h (vnode_key n j)) (sorted_keys st)"
    using Cons.prems by (simp add: remove_step_simps pop_position_remove1)
  then have "sorted (sorted_keys ?st)" "distinct (sorted_keys ?st)"
    using Cons.prems by (simp_all add: sorted_remove1)
  from Cons.IH [OF this]
  have "distinct (sorted_keys (foldl (remove_step h n) st (j # js)))"
    "set (sorted_keys (foldl (remove_step h n) st (j # js)))
       = set (sorted_keys ?st) - (\<lambda>i. h (vnode_key n i)) ` set js" by simp_all
  moreover have "set (sorted_keys ?st) = set (sorted_keys st) - {h (vnode_key n j)}"
    unfolding sk using Cons.prems by simp
  ultimately show ?case by auto
qed

lemma remove_loop_keys:
  "distinct (map fst (ring st)) \<Longrightarrow>
   fst ` set (ring (foldl (remove_step h n) st js))
     = fst ` set (ring st) - (\<lambda>i. h (vnode_key n i)) ` set js"
proof -
  assume d: "distinct (map fst (ring st))"
  have "dom (map_of (ring (foldl (remove_step h n) st js)))
          = dom (map_of (ring st)) - (\<lambda>i. h (vnode_key n i)) ` set js"
    by (auto simp: remove_loop_map_of dom_def split: if_splits)
  then show ?thesis by (simp add: dom_map_of_conv_image_fst)
qed

subsection \<open>The operations\<close>

lemma set_vpos: "set (vpos h r n) = (\<lambda>i. h (vnode_key n i)) ` set (py_range r)"
  by (simp add: vpos_def)

lemma ch_add_node_fields:
  "nodes (ch_add_node h st n) = insert n (nodes st)"
  "replicas (ch_add_node h st n) = replicas st"
  by (simp_all add: ch_add_node_def add_loop_fields)

lemma sh_add_node_fields:
  "nodes (sh_add_node h st n) = insert n (nodes st)"
  "replicas (sh_add_node h st n) = replicas st"
  by (auto simp: sh_add_node_def add_loop_fields)

lemma remove_node_fields:
  "nodes (remove_node h st n) = nodes st - {n}"
  "replicas (remove_node h st n) = replicas st"
  by (auto simp: remove_node_def remove_loop_fields)

lemma sh_add_node_fresh: "n \<notin> nodes st \<Longrightarrow> sh_add_node h st n = ch_add_node h st n"
  by (simp add: sh_add_node_def ch_add_node_def)

lemma sh_add_node_active: "n \<in> nodes st \<Longrightarrow> sh_add_node h st n = st"
  by (simp add: sh_add_node_def)

lemma ch_add_node_map_of:
  "map_of (ring (ch_add_node h st n)) p =
     (if p \<in> set (vpos h (replicas st) n) then Some n else map_of (ring st) p)"
  by (simp add: ch_add_node_def add_loop_map_of set_vpos)

lemma ch_add_node_sorted_keys:
  "sorted (sorted_keys st) \<Longrightarrow> sorted (sorted_keys (ch_add_node h st n))"
  "set (sorted_keys (ch_add_node h st n)) = set (sorted_keys st) \<union> set (vpos h (replicas st) n)"
  "length (sorted_keys (ch_add_node h st n)) = length (sorted_keys st) + nat (replicas st)"
  by (simp_all add: ch_add_node_def add_loop_sorted add_loop_set add_loop_length set_vpos
      py_range_def)

lemma ch_add_node_ring_keys:
  "fst ` set (ring (ch_add_node h st n)) = fst ` set (ring st) \<union> set (vpos h (replicas st) n)"
  "distinct (map fst (ring st)) \<Longrightarrow> distinct (map fst (ring (ch_add_node h st n)))"
  by (simp_all add: ch_add_node_def add_loop_keys add_loop_distinct_ring set_vpos)

lemma ch_add_node_distinct_keys:
  "distinct (sorted_keys st) \<Longrightarrow> distinct (vpos h (replicas st) n) \<Longrightarrow>
   set (vpos h (replicas st) n) \<inter> set (sorted_keys st) = {} \<Longrightarrow>
   distinct (sorted_keys (ch_add_node h st n))"
  unfolding ch_add_node_def vpos_def
  by (rule add_loop_distinct_keys) simp_all

lemma remove_node_map_of:
  "n \<in> nodes st \<Longrightarrow>
   map_of (ring (remove_node h st n)) p =
     (if p \<in> set (vpos h (replicas st) n) then None else map_of (ring st) p)"
  by (simp add: remove_node_def remove_loop_map_of set_vpos)

lemma remove_node_sorted:
  "sorted (sorted_keys st) \<Longrightarrow> sorted (sorted_keys (remove_node h st n))"
  by (simp add: remove_node_def remove_loop_sorted)

lemma remove_node_distinct_ring:
  "distinct (map fst (ring st)) \<Longrightarrow> distinct (map fst (ring (remove_node h st n)))"
  by (simp add: remove_node_def remove_loop_distinct_ring)

lemma remove_node_ring_keys:
  "distinct (map fst (ring st)) \<Longrightarrow> n \<in> nodes st \<Longrightarrow>
   fst ` set (ring (remove_node h st n)) = fst ` set (ring st) - set (vpos h (replicas st) n)"
  by (simp add: remove_node_def remove_loop_keys set_vpos)

lemma remove_node_keys_subset:
  "sorted (sorted_keys st) \<Longrightarrow> n \<in> nodes st \<Longrightarrow>
   set (sorted_keys st) - set (vpos h (replicas st) n) \<subseteq> set (sorted_keys (remove_node h st n))"
  using remove_loop_keys_subset [of "st\<lparr>nodes := nodes st - {n}\<rparr>" h n "py_range (replicas st)"]
  by (simp add: remove_node_def set_vpos)

lemma remove_node_keys_distinct:
  "sorted (sorted_keys st) \<Longrightarrow> distinct (sorted_keys st) \<Longrightarrow> n \<in> nodes st \<Longrightarrow>
   distinct (sorted_keys (remove_node h st n)) \<and>
   set (sorted_keys (remove_node h st n)) = set (sorted_keys st) - set (vpos h (replicas st) n)"
  using remove_loop_keys_distinct [of "st\<lparr>nodes := nodes st - {n}\<rparr>" h n "py_range (replicas st)"]
  by (simp add: remove_node_def set_vpos)

text \<open>Invariant I2 survives every removal.\<close>

lemma remove_node_ring_wf: "ring_wf st \<Longrightarrow> ring_wf (remove_node h st n)"
proof (cases "n \<in> nodes st")
  case False
  assume "ring_wf st"
  with False show ?thesis by (simp add: remove_node_def)
next
  case True
  assume wf: "ring_wf st"
  then have s: "sorted (sorted_keys st)" and d: "distinct (sorted_keys st)"
    and k: "set (sorted_keys st) = fst ` set (ring st)" and dr: "distinct (map fst (ring st))"
    by (simp_all add: ring_wf_def)
  show ?thesis
    unfolding ring_wf_def
    using remove_node_sorted [OF s] remove_node_keys_distinct [OF s d True]
      remove_node_ring_keys [OF dr True] remove_node_distinct_ring [OF dr] k
    by simp
qed

subsection \<open>Invariants along a sequence of calls\<close>

lemma distinct_concat_map_disjoint:
  "distinct (concat (map f xs)) \<Longrightarrow> distinct xs \<Longrightarrow> x \<in> set xs \<Longrightarrow> y \<in> set xs \<Longrightarrow>
   x \<noteq> y \<Longrightarrow> set (f x) \<inter> set (f y) = {}"
proof (induction xs)
  case Nil
  then show ?case by simp
next
  case (Cons a xs)
  from Cons.prems(1) have tail: "distinct (concat (map f xs))"
    and cross: "\<forall>z\<in>set xs. set (f a) \<inter> set (f z) = {}"
    by auto
  show ?case
  proof (cases "x = a \<or> y = a")
    case True
    with Cons.prems cross show ?thesis by auto
  next
    case False
    with Cons.prems tail Cons.IH show ?thesis by auto
  qed
qed

lemma distinct_concat_map_each:
  "distinct (concat (map f xs)) \<Longrightarrow> x \<in> set xs \<Longrightarrow> distinct (f x)"
  by (induction xs) auto

lemma no_collision_separate: "no_collision h r ns \<Longrightarrow> separate h r (set ns)"
  unfolding no_collision_def separate_def
  using distinct_concat_map_each [of "vpos h r" "remdups ns"]
    distinct_concat_map_disjoint [of "vpos h r" "remdups ns"]
  by simp

lemma separateD:
  "separate h r N \<Longrightarrow> n \<in> N \<Longrightarrow> m \<in> N \<Longrightarrow> n \<noteq> m \<Longrightarrow>
   set (vpos h r n) \<inter> set (vpos h r m) = {}"
  by (simp add: separate_def)

lemma separate_distinct: "separate h r N \<Longrightarrow> n \<in> N \<Longrightarrow> distinct (vpos h r n)"
  by (simp add: separate_def)

lemma placed_ch_add_node:
  assumes "placed h st" "separate h (replicas st) N" "nodes st \<subseteq> N" "n \<in> N"
  shows "placed h (ch_add_node h st n)"
proof -
  let ?P = "\<lambda>m. set (vpos h (replicas st) m)"
  have disj: "\<And>m. m \<in> nodes st \<Longrightarrow> m \<noteq> n \<Longrightarrow> ?P n \<inter> ?P m = {}"
    using assms(2-4) unfolding separate_def by blast
  have old: "\<And>p m. map_of (ring st) p = Some m \<longleftrightarrow> (m \<in> nodes st \<and> p \<in> ?P m)"
    using assms(1) unfolding placed_def by blast
  have "\<And>p m. map_of (ring (ch_add_node h st n)) p = Some m \<longleftrightarrow>
          (m \<in> insert n (nodes st) \<and> p \<in> ?P m)"
  proof -
    fix p m
    show "map_of (ring (ch_add_node h st n)) p = Some m \<longleftrightarrow>
          (m \<in> insert n (nodes st) \<and> p \<in> ?P m)"
    proof (cases "p \<in> ?P n")
      case True
      then show ?thesis using disj [of m] by (auto simp: ch_add_node_map_of)
    next
      case False
      then show ?thesis using old [of p m] by (auto simp: ch_add_node_map_of)
    qed
  qed
  moreover have "distinct (map fst (ring (ch_add_node h st n)))"
    using assms(1) by (simp add: placed_def ch_add_node_ring_keys)
  ultimately show ?thesis by (simp add: placed_def ch_add_node_fields)
qed

lemma placed_remove_node:
  assumes "placed h st" "separate h (replicas st) N" "nodes st \<subseteq> N"
  shows "placed h (remove_node h st n)"
proof (cases "n \<in> nodes st")
  case False
  with assms(1) show ?thesis by (simp add: remove_node_def)
next
  case True
  let ?P = "\<lambda>m. set (vpos h (replicas st) m)"
  have disj: "\<And>m. m \<in> nodes st \<Longrightarrow> m \<noteq> n \<Longrightarrow> ?P n \<inter> ?P m = {}"
    using assms(2,3) True unfolding separate_def by blast
  have old: "\<And>p m. map_of (ring st) p = Some m \<longleftrightarrow> (m \<in> nodes st \<and> p \<in> ?P m)"
    using assms(1) unfolding placed_def by blast
  have "\<And>p m. map_of (ring (remove_node h st n)) p = Some m \<longleftrightarrow>
          (m \<in> nodes st - {n} \<and> p \<in> ?P m)"
  proof -
    fix p m
    show "map_of (ring (remove_node h st n)) p = Some m \<longleftrightarrow>
          (m \<in> nodes st - {n} \<and> p \<in> ?P m)"
    proof (cases "p \<in> ?P n")
      case True
      then show ?thesis using disj [of m] \<open>n \<in> nodes st\<close>
        by (auto simp: remove_node_map_of)
    next
      case False
      then show ?thesis using old [of p m] \<open>n \<in> nodes st\<close>
        by (auto simp: remove_node_map_of)
    qed
  qed
  moreover have "distinct (map fst (ring (remove_node h st n)))"
    using assms(1) by (simp add: placed_def remove_node_distinct_ring)
  ultimately show ?thesis by (simp add: placed_def remove_node_fields)
qed

lemma placed_keys:
  "placed h st \<Longrightarrow> fst ` set (ring st) = (\<Union>m\<in>nodes st. set (vpos h (replicas st) m))"
proof -
  assume pl: "placed h st"
  have "dom (map_of (ring st)) = (\<Union>m\<in>nodes st. set (vpos h (replicas st) m))"
    using pl unfolding placed_def dom_def by auto
  then show ?thesis by (simp add: dom_map_of_conv_image_fst)
qed

lemma ring_wf_add_fresh:
  assumes "ring_wf st" "placed h st" "separate h (replicas st) N" "nodes st \<subseteq> N" "n \<in> N"
    "n \<notin> nodes st"
  shows "ring_wf (ch_add_node h st n)"
proof -
  let ?P = "\<lambda>m. set (vpos h (replicas st) m)"
  from assms(1) have s: "sorted (sorted_keys st)" and d: "distinct (sorted_keys st)"
    and k: "set (sorted_keys st) = fst ` set (ring st)" and dr: "distinct (map fst (ring st))"
    by (simp_all add: ring_wf_def)
  have disj: "?P n \<inter> ?P m = {}" if "m \<in> nodes st" for m
  proof -
    from that assms(4,6) have "m \<in> N" "n \<noteq> m" by auto
    with separateD [OF assms(3) assms(5)] show ?thesis by simp
  qed
  have fresh: "?P n \<inter> set (sorted_keys st) = {}"
  proof (rule ccontr)
    assume "?P n \<inter> set (sorted_keys st) \<noteq> {}"
    then obtain p where p: "p \<in> ?P n" "p \<in> set (sorted_keys st)" by blast
    then have "p \<in> (\<Union>m\<in>nodes st. ?P m)" using k placed_keys [OF assms(2)] by simp
    then obtain m where "m \<in> nodes st" "p \<in> ?P m" by blast
    with disj [of m] p(1) show False by blast
  qed
  have dn: "distinct (vpos h (replicas st) n)" by (rule separate_distinct [OF assms(3) assms(5)])
  have 1: "sorted (sorted_keys (ch_add_node h st n))" by (rule ch_add_node_sorted_keys(1) [OF s])
  have 2: "distinct (sorted_keys (ch_add_node h st n))"
    by (rule ch_add_node_distinct_keys [OF d dn fresh])
  have 3: "set (sorted_keys (ch_add_node h st n)) = fst ` set (ring (ch_add_node h st n))"
    unfolding ch_add_node_sorted_keys(2) ch_add_node_ring_keys(1) k ..
  have 4: "distinct (map fst (ring (ch_add_node h st n)))"
    by (rule ch_add_node_ring_keys(2) [OF dr])
  from 1 2 3 4 show ?thesis unfolding ring_wf_def by blast
qed

lemma ring_weak_ch_add_node: "ring_weak st \<Longrightarrow> ring_weak (ch_add_node h st n)"
  unfolding ring_weak_def
  by (auto simp: ch_add_node_sorted_keys ch_add_node_ring_keys)

lemma ring_weak_sh_add_node: "ring_weak st \<Longrightarrow> ring_weak (sh_add_node h st n)"
  by (cases "n \<in> nodes st") (simp_all add: sh_add_node_active sh_add_node_fresh ring_weak_ch_add_node)

lemma ring_weak_remove_node: "ring_weak st \<Longrightarrow> ring_weak (remove_node h st n)"
proof (cases "n \<in> nodes st")
  case False
  assume "ring_weak st"
  with False show ?thesis by (simp add: remove_node_def)
next
  case True
  assume w: "ring_weak st"
  then have s: "sorted (sorted_keys st)" and dr: "distinct (map fst (ring st))"
    and sub: "fst ` set (ring st) \<subseteq> set (sorted_keys st)"
    by (simp_all add: ring_weak_def)
  have "fst ` set (ring (remove_node h st n)) \<subseteq> set (sorted_keys (remove_node h st n))"
    using remove_node_keys_subset [OF s True, of h] sub
    unfolding remove_node_ring_keys [OF dr True] by blast
  then show ?thesis
    unfolding ring_weak_def
    using remove_node_sorted [OF s] remove_node_distinct_ring [OF dr] by simp
qed

lemma empty_ring_invariants:
  "ring_wf (empty_ring r)" "ring_weak (empty_ring r)" "placed h (empty_ring r)"
  "nodes (empty_ring r) = {}" "replicas (empty_ring r) = r"
  by (simp_all add: empty_ring_def ring_wf_def ring_weak_def placed_def)

lemma ch_run_weak: "ring_weak st \<Longrightarrow> ring_weak (ch_run h st ops)"
  unfolding ch_run_def
proof (induction ops arbitrary: st)
  case Nil
  then show ?case by simp
next
  case (Cons x ops)
  have "ring_weak (ch_apply h st x)"
    using Cons.prems by (cases x) (simp_all add: ring_weak_ch_add_node ring_weak_remove_node)
  from Cons.IH [OF this] show ?case by simp
qed

lemma sh_run_weak: "ring_weak st \<Longrightarrow> ring_weak (sh_run h st ops)"
  unfolding sh_run_def
proof (induction ops arbitrary: st)
  case Nil
  then show ?case by simp
next
  case (Cons x ops)
  have "ring_weak (sh_apply h st x)"
    using Cons.prems by (cases x) (simp_all add: ring_weak_sh_add_node ring_weak_remove_node)
  from Cons.IH [OF this] show ?case by simp
qed

lemma sh_apply_full:
  assumes "separate h r N" "op_node x \<in> N"
    "replicas st = r" "nodes st \<subseteq> N" "ring_wf st" "placed h st"
  shows "replicas (sh_apply h st x) = r \<and> nodes (sh_apply h st x) \<subseteq> N \<and>
         ring_wf (sh_apply h st x) \<and> placed h (sh_apply h st x)"
proof (cases x)
  case (Add n)
  show ?thesis
  proof (cases "n \<in> nodes st")
    case True
    with Add assms show ?thesis by (simp add: sh_add_node_active)
  next
    case False
    have sep: "separate h (replicas st) N" using assms(1,3) by simp
    have nN: "n \<in> N" using Add assms(2) by simp
    have "ring_wf (ch_add_node h st n)"
      by (rule ring_wf_add_fresh [OF assms(5) assms(6) sep assms(4) nN False])
    moreover have "placed h (ch_add_node h st n)"
      by (rule placed_ch_add_node [OF assms(6) sep assms(4) nN])
    ultimately show ?thesis
      using Add False nN assms(3,4) by (simp add: sh_add_node_fresh ch_add_node_fields)
  qed
next
  case (Remove n)
  have sep: "separate h (replicas st) N" using assms(1,3) by simp
  have "ring_wf (remove_node h st n)" by (rule remove_node_ring_wf [OF assms(5)])
  moreover have "placed h (remove_node h st n)"
    by (rule placed_remove_node [OF assms(6) sep assms(4)])
  ultimately show ?thesis
    using Remove assms(3,4) by (auto simp: remove_node_fields)
qed

lemma sh_run_full:
  assumes "separate h r N" "op_node ` set ops \<subseteq> N"
    "replicas st = r" "nodes st \<subseteq> N" "ring_wf st" "placed h st"
  shows "replicas (sh_run h st ops) = r \<and> nodes (sh_run h st ops) \<subseteq> N \<and>
         ring_wf (sh_run h st ops) \<and> placed h (sh_run h st ops)"
  using assms(2-) unfolding sh_run_def
proof (induction ops arbitrary: st)
  case Nil
  then show ?case by simp
next
  case (Cons x ops)
  have x: "op_node x \<in> N" and rest: "op_node ` set ops \<subseteq> N" using Cons.prems(1) by auto
  from sh_apply_full [OF assms(1) x Cons.prems(2-5)]
  have "replicas (sh_apply h st x) = r" "nodes (sh_apply h st x) \<subseteq> N"
    "ring_wf (sh_apply h st x)" "placed h (sh_apply h st x)" by blast+
  from Cons.IH [OF rest this] show ?case by simp
qed

lemma ch_apply_placed:
  assumes "separate h r N" "op_node x \<in> N" "replicas st = r" "nodes st \<subseteq> N" "placed h st"
  shows "replicas (ch_apply h st x) = r \<and> nodes (ch_apply h st x) \<subseteq> N \<and>
         placed h (ch_apply h st x)"
proof (cases x)
  case (Add n)
  have sep: "separate h (replicas st) N" using assms(1,3) by simp
  have nN: "n \<in> N" using Add assms(2) by simp
  have "placed h (ch_add_node h st n)"
    by (rule placed_ch_add_node [OF assms(5) sep assms(4) nN])
  then show ?thesis using Add nN assms(3,4) by (simp add: ch_add_node_fields)
next
  case (Remove n)
  have sep: "separate h (replicas st) N" using assms(1,3) by simp
  have "placed h (remove_node h st n)"
    by (rule placed_remove_node [OF assms(5) sep assms(4)])
  then show ?thesis using Remove assms(3,4) by (auto simp: remove_node_fields)
qed

lemma ch_run_placed:
  assumes "separate h r N" "op_node ` set ops \<subseteq> N"
    "replicas st = r" "nodes st \<subseteq> N" "placed h st"
  shows "replicas (ch_run h st ops) = r \<and> nodes (ch_run h st ops) \<subseteq> N \<and>
         placed h (ch_run h st ops)"
  using assms(2-) unfolding ch_run_def
proof (induction ops arbitrary: st)
  case Nil
  then show ?case by simp
next
  case (Cons x ops)
  have x: "op_node x \<in> N" and rest: "op_node ` set ops \<subseteq> N" using Cons.prems(1) by auto
  from ch_apply_placed [OF assms(1) x Cons.prems(2-4)]
  have "replicas (ch_apply h st x) = r" "nodes (ch_apply h st x) \<subseteq> N"
    "placed h (ch_apply h st x)" by blast+
  from Cons.IH [OF rest this] show ?case by simp
qed

lemma ch_run_no_readd: "no_readd (nodes st) ops \<Longrightarrow> ch_run h st ops = sh_run h st ops"
  unfolding ch_run_def sh_run_def
proof (induction ops arbitrary: st)
  case Nil
  then show ?case by simp
next
  case (Cons x ops)
  show ?case
  proof (cases x)
    case (Add n)
    with Cons.prems have fresh: "n \<notin> nodes st" and "no_readd (insert n (nodes st)) ops" by simp_all
    then have "no_readd (nodes (sh_add_node h st n)) ops" by (simp add: sh_add_node_fields)
    from Cons.IH [OF this] show ?thesis using Add fresh by (simp add: sh_add_node_fresh)
  next
    case (Remove n)
    with Cons.prems have "no_readd (nodes (remove_node h st n)) ops"
      by (simp add: remove_node_fields)
    from Cons.IH [OF this] show ?thesis using Remove by simp
  qed
qed

text \<open>The reachable states when no two virtual nodes collide.\<close>

lemma sh_run_empty_full:
  assumes "no_collision h r (map op_node ops)"
  shows "replicas (sh_run h (empty_ring r) ops) = r"
    and "ring_wf (sh_run h (empty_ring r) ops)"
    and "placed h (sh_run h (empty_ring r) ops)"
  using sh_run_full [OF no_collision_separate [OF assms], of ops "empty_ring r"]
  by (simp_all add: empty_ring_invariants)

lemma ch_run_empty_placed:
  assumes "no_collision h r (map op_node ops)"
  shows "replicas (ch_run h (empty_ring r) ops) = r"
    and "placed h (ch_run h (empty_ring r) ops)"
  using ch_run_placed [OF no_collision_separate [OF assms], of ops "empty_ring r"]
  by (simp_all add: empty_ring_invariants)

subsection \<open>Lookups on a ring that satisfies I2\<close>

lemma sorted_Min_nth0: "sorted xs \<Longrightarrow> xs \<noteq> [] \<Longrightarrow> Min (set xs) = xs ! 0"
proof -
  assume s: "sorted xs" and ne: "xs \<noteq> []"
  then obtain x ys where xs: "xs = x # ys" by (cases xs) auto
  with s have "\<forall>y\<in>set xs. x \<le> y" by auto
  then have "Min (set xs) = x" using xs by (intro Min_eqI) auto
  with xs show ?thesis by simp
qed

lemma ring_wf_keys_nonempty: "ring_wf st \<Longrightarrow> ring st \<noteq> [] \<Longrightarrow> sorted_keys st \<noteq> []"
proof
  assume wf: "ring_wf st" and ne: "ring st \<noteq> []" and e: "sorted_keys st = []"
  from wf e have "fst ` set (ring st) = {}" by (simp add: ring_wf_def)
  with ne show False by simp
qed

lemma ring_at_wf:
  assumes "ring_wf st" "idx < length (sorted_keys st)"
  shows "ring_at st idx = Inr (map_of (ring st) (sorted_keys st ! idx))"
    and "\<exists>n. map_of (ring st) (sorted_keys st ! idx) = Some n"
proof -
  have "sorted_keys st ! idx \<in> fst ` set (ring st)"
    using assms unfolding ring_wf_def by (metis nth_mem)
  then have "sorted_keys st ! idx \<in> dom (map_of (ring st))"
    by (simp add: dom_map_of_conv_image_fst)
  then obtain n where n: "map_of (ring st) (sorted_keys st ! idx) = Some n" by blast
  then show "\<exists>n. map_of (ring st) (sorted_keys st ! idx) = Some n" by blast
  from n assms(2) show "ring_at st idx = Inr (map_of (ring st) (sorted_keys st ! idx))"
    by (simp add: ring_at_def)
qed

lemma policy_A_bisect_left:
  assumes "sorted a" "a \<noteq> []"
  shows "policy_A_position a p = a ! (if bisect_left a p = length a then 0 else bisect_left a p)"
proof (cases "bisect_left a p = length a")
  case True
  then have "\<forall>y\<in>set a. y < p" using bisect_left_take [OF assms(1), of _ p] by simp
  then have "filter (\<lambda>q. p \<le> q) a = []" by (auto simp: filter_empty_conv)
  with True show ?thesis by (simp add: policy_A_position_def sorted_Min_nth0 [OF assms])
next
  case False
  let ?r = "bisect_left a p"
  have lt: "?r < length a" using False bisect_left_nth(1) [OF assms(1), of p] by simp
  have ge: "p \<le> a ! ?r" using bisect_left_nth(3) [OF assms(1), of p ?r] lt by simp
  have mem: "a ! ?r \<in> set (filter (\<lambda>q. p \<le> q) a)" using lt ge by simp
  have least: "a ! ?r \<le> y" if "y \<in> set (filter (\<lambda>q. p \<le> q) a)" for y
  proof -
    from that obtain i where i: "i < length a" "a ! i = y" "p \<le> y"
      by (auto simp: in_set_conv_nth)
    have "\<not> i < ?r" using bisect_left_nth(2) [OF assms(1), of i p] i by auto
    then have "?r \<le> i" by simp
    from sorted_nth_mono [OF assms(1) this i(1)] i(2) show ?thesis by simp
  qed
  have "Min (set (filter (\<lambda>q. p \<le> q) a)) = a ! ?r"
    using mem least by (intro Min_eqI) auto
  moreover have "filter (\<lambda>q. p \<le> q) a \<noteq> []"
    using mem by (metis empty_iff empty_set)
  ultimately show ?thesis using False by (simp add: policy_A_position_def)
qed

lemma policy_B_bisect_right:
  assumes "sorted a" "a \<noteq> []"
  shows "policy_B_position a p = a ! (if bisect_right a p = length a then 0 else bisect_right a p)"
proof (cases "bisect_right a p = length a")
  case True
  then have "\<forall>y\<in>set a. y \<le> p" using bisect_right_take [OF assms(1), of _ p] by simp
  then have "filter (\<lambda>q. p < q) a = []" by (auto simp: filter_empty_conv)
  with True show ?thesis by (simp add: policy_B_position_def sorted_Min_nth0 [OF assms])
next
  case False
  let ?r = "bisect_right a p"
  have lt: "?r < length a" using False bisect_right_nth(1) [OF assms(1), of p] by simp
  have ge: "p < a ! ?r" using bisect_right_nth(3) [OF assms(1), of p ?r] lt by simp
  have mem: "a ! ?r \<in> set (filter (\<lambda>q. p < q) a)" using lt ge by simp
  have least: "a ! ?r \<le> y" if "y \<in> set (filter (\<lambda>q. p < q) a)" for y
  proof -
    from that obtain i where i: "i < length a" "a ! i = y" "p < y"
      by (auto simp: in_set_conv_nth)
    have "\<not> i < ?r" using bisect_right_nth(2) [OF assms(1), of i p] i by auto
    then have "?r \<le> i" by simp
    from sorted_nth_mono [OF assms(1) this i(1)] i(2) show ?thesis by simp
  qed
  have "Min (set (filter (\<lambda>q. p < q) a)) = a ! ?r"
    using mem least by (intro Min_eqI) auto
  moreover have "filter (\<lambda>q. p < q) a \<noteq> []"
    using mem by (metis empty_iff empty_set)
  ultimately show ?thesis using False by (simp add: policy_B_position_def)
qed

lemma wrap_index_lt: "a \<noteq> [] \<Longrightarrow> i \<le> length a \<Longrightarrow> (if i = length a then 0 else i) < length a"
  by auto

lemma ch_get_node_wf:
  assumes "ring_wf st" "ring st \<noteq> []"
  shows "ch_get_node h st key
           = Inr (map_of (ring st) (policy_A_position (sorted_keys st) (h key)))"
    and "\<exists>n. map_of (ring st) (policy_A_position (sorted_keys st) (h key)) = Some n"
proof -
  let ?a = "sorted_keys st"
  let ?i = "if bisect_left ?a (h key) = length ?a then 0 else bisect_left ?a (h key)"
  have s: "sorted ?a" using assms(1) by (simp add: ring_wf_def)
  have ne: "?a \<noteq> []" by (rule ring_wf_keys_nonempty [OF assms])
  have lt: "?i < length ?a" by (rule wrap_index_lt [OF ne bisect_left_nth(1) [OF s]])
  have pos: "policy_A_position ?a (h key) = ?a ! ?i" by (rule policy_A_bisect_left [OF s ne])
  have "ch_get_node h st key = ring_at st ?i"
    using assms(2) by (simp add: ch_get_node_def Let_def)
  with ring_at_wf [OF assms(1) lt] pos
  show "ch_get_node h st key
           = Inr (map_of (ring st) (policy_A_position (sorted_keys st) (h key)))"
    and "\<exists>n. map_of (ring st) (policy_A_position (sorted_keys st) (h key)) = Some n"
    by simp_all
qed

lemma sh_get_node_wf:
  assumes "ring_wf st" "ring st \<noteq> []"
  shows "sh_get_node h st key
           = Inr (map_of (ring st) (policy_B_position (sorted_keys st) (h key)))"
    and "\<exists>n. map_of (ring st) (policy_B_position (sorted_keys st) (h key)) = Some n"
proof -
  let ?a = "sorted_keys st"
  let ?i = "if bisect_right ?a (h key) = length ?a then 0 else bisect_right ?a (h key)"
  have s: "sorted ?a" using assms(1) by (simp add: ring_wf_def)
  have ne: "?a \<noteq> []" by (rule ring_wf_keys_nonempty [OF assms])
  have lt: "?i < length ?a" by (rule wrap_index_lt [OF ne bisect_right_nth(1) [OF s]])
  have pos: "policy_B_position ?a (h key) = ?a ! ?i" by (rule policy_B_bisect_right [OF s ne])
  have "sh_get_node h st key = ring_at st ?i"
    using assms(2) by (simp add: sh_get_node_def Let_def)
  with ring_at_wf [OF assms(1) lt] pos
  show "sh_get_node h st key
           = Inr (map_of (ring st) (policy_B_position (sorted_keys st) (h key)))"
    and "\<exists>n. map_of (ring st) (policy_B_position (sorted_keys st) (h key)) = Some n"
    by simp_all
qed

subsection \<open>Running the model on concrete rings\<close>

lemma str_nat_0: "str_nat 0 = ''0''"
  by code_simp

lemma vnode_key_0: "vnode_key n 0 = n @ ''#0''"
  by (simp add: vnode_key_def str_nat_0)

lemmas run_eval = ch_run_def sh_run_def ch_add_node_def sh_add_node_def remove_node_def
  add_step_def remove_step_def py_range_def vnode_key_0
  len_hash_def bisect_insort_def bisect_right_def bisect_right_loop.simps bisect_left_def
  bisect_left_loop.simps pop_position_def list_pop_def empty_ring_def Let_def
  ch_get_node_def sh_get_node_def ring_at_def

subsection \<open>Further facts about removal and reachable states\<close>

lemma remove_loop_keys_remove1:
  "sorted (sorted_keys st) \<Longrightarrow>
   sorted_keys (foldl (remove_step h n) st js)
     = foldl (\<lambda>a x. remove1 x a) (sorted_keys st) (map (\<lambda>i. h (vnode_key n i)) js)"
proof (induction js arbitrary: st)
  case Nil
  then show ?case by simp
next
  case (Cons j js)
  let ?st = "remove_step h n st j"
  have sk: "sorted_keys ?st = remove1 (h (vnode_key n j)) (sorted_keys st)"
    using Cons.prems by (simp add: remove_step_simps pop_position_remove1)
  then have "sorted (sorted_keys ?st)" using Cons.prems by (simp add: sorted_remove1)
  from Cons.IH [OF this] sk show ?case by simp
qed

lemma remove_node_keys_remove1:
  "sorted (sorted_keys st) \<Longrightarrow> n \<in> nodes st \<Longrightarrow>
   sorted_keys (remove_node h st n)
     = foldl (\<lambda>a x. remove1 x a) (sorted_keys st) (vpos h (replicas st) n)"
  using remove_loop_keys_remove1 [of "st\<lparr>nodes := nodes st - {n}\<rparr>" h n "py_range (replicas st)"]
  by (simp add: remove_node_def vpos_def)

lemma length_vpos: "length (vpos h r n) = nat r"
  by (simp add: vpos_def py_range_def)

lemma placed_lookup_active: "placed h st \<Longrightarrow> map_of (ring st) p = Some n \<Longrightarrow> n \<in> nodes st"
  by (simp add: placed_def)

lemma placed_ring_nonempty:
  assumes "placed h st" "0 < replicas st" "nodes st \<noteq> {}"
  shows "ring st \<noteq> []"
proof
  assume e: "ring st = []"
  from assms(3) obtain m where m: "m \<in> nodes st" by blast
  have "vpos h (replicas st) m \<noteq> []" using length_vpos [of h "replicas st" m] assms(2) by auto
  then obtain p where "p \<in> set (vpos h (replicas st) m)" by (cases "vpos h (replicas st) m") auto
  with m assms(1) have "map_of (ring st) p = Some m" by (simp add: placed_def)
  with e show False by simp
qed

lemma placed_ring_empty:
  assumes "placed h st" "nodes st = {}"
  shows "ring st = []"
proof (cases "ring st")
  case Nil
  then show ?thesis .
next
  case (Cons e es)
  obtain p m where e: "e = (p, m)" by (cases e)
  have "distinct (map fst (ring st))" using assms(1) by (simp add: placed_def)
  then have "map_of (ring st) p = Some m" using Cons e by simp
  then have "m \<in> nodes st" by (rule placed_lookup_active [OF assms(1)])
  with assms(2) show ?thesis by simp
qed

lemma ring_at_not_None: "ring_at st idx \<noteq> Inr None"
  by (simp add: ring_at_def split: option.splits)

lemma ch_get_node_None_iff: "ch_get_node h st key = Inr None \<longleftrightarrow> ring st = []"
  by (simp add: ch_get_node_def Let_def ring_at_not_None)

lemma sh_get_node_None_iff: "sh_get_node h st key = Inr None \<longleftrightarrow> ring st = []"
  by (simp add: sh_get_node_def Let_def ring_at_not_None)

lemmas inv_eval = no_collision_def vpos_def ring_wf_def ring_weak_def

lemma sh_reachable_lookup:
  assumes "0 < r" "no_collision h r (map op_node ops)"
    "nodes (sh_run h (empty_ring r) ops) \<noteq> {}"
  shows "\<exists>n\<in>nodes (sh_run h (empty_ring r) ops).
           sh_get_node h (sh_run h (empty_ring r) ops) key = Inr (Some n) \<and>
           ch_get_node h (sh_run h (empty_ring r) ops) key' \<in> Inr ` Some ` nodes (sh_run h (empty_ring r) ops)"
proof -
  let ?st = "sh_run h (empty_ring r) ops"
  note inv = sh_run_empty_full [OF assms(2)]
  have ne: "ring ?st \<noteq> []"
    using placed_ring_nonempty [OF inv(3)] inv(1) assms(1,3) by simp
  from sh_get_node_wf [OF inv(2) ne, of h key] obtain n
    where n: "sh_get_node h ?st key = Inr (Some n)"
      "map_of (ring ?st) (policy_B_position (sorted_keys ?st) (h key)) = Some n" by auto
  from ch_get_node_wf [OF inv(2) ne, of h key'] obtain n'
    where n': "ch_get_node h ?st key' = Inr (Some n')"
      "map_of (ring ?st) (policy_A_position (sorted_keys ?st) (h key')) = Some n'" by auto
  have "n \<in> nodes ?st" by (rule placed_lookup_active [OF inv(3) n(2)])
  moreover have "n' \<in> nodes ?st" by (rule placed_lookup_active [OF inv(3) n'(2)])
  ultimately show ?thesis using n(1) n'(1) by auto
qed

subsection \<open>The values of the hash functions\<close>

lemma be_nat_snoc: "be_nat (bs @ [b]) = 256 * be_nat bs + unat b"
  by (simp add: be_nat_def)

lemma be_nat_bound: "be_nat bs < 256 ^ length bs"
proof (induction bs rule: rev_induct)
  case Nil
  then show ?case by (simp add: be_nat_def)
next
  case (snoc b bs)
  have "unat b < 256" using unsigned_less [of b] by simp
  with snoc show ?case by (simp add: be_nat_snoc)
qed

lemma hex_value_hex_digit: "d < 16 \<Longrightarrow> hex_value (hex_digit d) = Some d"
  by (auto simp: hex_value_def hex_digit_def Let_def)

lemma int16_loop_hexdigest:
  "int16_loop acc (hexdigest bs) = Inr (foldl (\<lambda>acc b. 256 * acc + unat b) acc bs)"
proof (induction bs arbitrary: acc)
  case Nil
  then show ?case by (simp add: hexdigest_def)
next
  case (Cons b bs)
  have lt: "unat b < 256" using unsigned_less [of b] by simp
  then have hi: "unat b div 16 < 16" by simp
  have lo: "unat b mod 16 < 16" by simp
  have split: "16 * (16 * acc + unat b div 16) + unat b mod 16 = 256 * acc + unat b"
    by simp
  have "hexdigest (b # bs)
          = hex_digit (unat b div 16) # hex_digit (unat b mod 16) # hexdigest bs"
    by (simp add: hexdigest_def)
  then have "int16_loop acc (hexdigest (b # bs))
          = int16_loop (16 * (16 * acc + unat b div 16) + unat b mod 16) (hexdigest bs)"
    by (simp add: hex_value_hex_digit [OF hi] hex_value_hex_digit [OF lo])
  also have "\<dots> = int16_loop (256 * acc + unat b) (hexdigest bs)" by (simp only: split)
  finally show ?case using Cons.IH [of "256 * acc + unat b"] by simp
qed

lemma hexdigest_empty_iff: "hexdigest bs = [] \<longleftrightarrow> bs = []"
  by (cases bs) (simp_all add: hexdigest_def)

lemma simple_hash_value:
  "md5 (utf8_encode key) \<noteq> [] \<Longrightarrow> simple_hash md5 key = Inr (be_nat (md5 (utf8_encode key)))"
  by (simp add: simple_hash_def int16_def hexdigest_empty_iff int16_loop_hexdigest be_nat_def)

lemma HashFunction_hash_value:
  "8 \<le> length (sha1 (utf8_encode key)) \<Longrightarrow>
   HashFunction_hash sha1 key = Inr (be_nat (take 8 (sha1 (utf8_encode key))))"
  by (simp add: HashFunction_hash_def unpack_Q_def Let_def)

subsection \<open>Moving the data of a removed node\<close>








subsection \<open>How often a position stands in the ordered sequence\<close>

lemma count_bisect_insort:
  "count_list (bisect_insort a x) y = count_list a y + (if x = y then 1 else 0)"
proof -
  let ?r = "bisect_right a x"
  have "count_list a y = count_list (take ?r a @ drop ?r a) y" by simp
  also have "\<dots> = count_list (take ?r a) y + count_list (drop ?r a) y"
    by (rule count_list_append)
  finally show ?thesis by (simp add: bisect_insort_def Let_def)
qed

lemma distinct_count_le_1: "distinct xs \<Longrightarrow> count_list xs x \<le> 1"
  by (induction xs) (auto simp: count_list_0_iff)

lemma count_pos_iff: "0 < count_list xs x \<longleftrightarrow> x \<in> set xs"
  using count_list_0_iff [of xs x] by auto

lemma add_step_count:
  "count_list (sorted_keys (add_step h n st i)) (h (vnode_key n i))
     = Suc (count_list (sorted_keys st) (h (vnode_key n i)))"
  by (simp add: add_step_simps count_bisect_insort)

lemma add_loop_count:
  "count_list (sorted_keys (foldl (add_step h n) st js)) p
     = count_list (sorted_keys st) p + count_list (map (\<lambda>i. h (vnode_key n i)) js) p"
  by (induction js arbitrary: st) (simp_all add: add_step_simps count_bisect_insort)

lemma ch_add_node_count:
  "count_list (sorted_keys (ch_add_node h st n)) p
     = count_list (sorted_keys st) p + count_list (vpos h (replicas st) n) p"
  by (simp add: ch_add_node_def add_loop_count vpos_def)

lemma add_step_collision:
  assumes "h (vnode_key n i) \<in> set (sorted_keys st)"
  shows "\<not> distinct (sorted_keys (add_step h n st i))"
proof
  assume "distinct (sorted_keys (add_step h n st i))"
  from distinct_count_le_1 [OF this, of "h (vnode_key n i)"]
  have "count_list (sorted_keys st) (h (vnode_key n i)) = 0" by (simp add: add_step_count)
  with assms show False by (simp add: count_list_0_iff)
qed

lemma ch_add_node_collision:
  assumes "p \<in> set (vpos h (replicas st) n)" "p \<in> set (sorted_keys st)"
  shows "\<not> distinct (sorted_keys (ch_add_node h st n))"
proof
  assume "distinct (sorted_keys (ch_add_node h st n))"
  from distinct_count_le_1 [OF this, of p]
  have "count_list (sorted_keys st) p + count_list (vpos h (replicas st) n) p \<le> 1"
    by (simp add: ch_add_node_count)
  moreover have "0 < count_list (sorted_keys st) p" using assms(2) by (simp add: count_pos_iff)
  moreover have "0 < count_list (vpos h (replicas st) n) p"
    using assms(1) by (simp add: count_pos_iff)
  ultimately show False by simp
qed

subsection \<open>The wrap on a ring without orphaned entries\<close>

lemma wrap_lookup:
  assumes "sorted (sorted_keys st)" "set (sorted_keys st) = fst ` set (ring st)"
    "ring st \<noteq> []"
  shows "\<exists>n. map_of (ring st) (Min (set (sorted_keys st))) = Some n \<and>
             ring_at st 0 = Inr (Some n)"
proof -
  have ne: "sorted_keys st \<noteq> []"
  proof
    assume "sorted_keys st = []"
    with assms(2) have "fst ` set (ring st) = {}" by simp
    with assms(3) show False by simp
  qed
  then have lt: "0 < length (sorted_keys st)" by simp
  have min: "Min (set (sorted_keys st)) = sorted_keys st ! 0"
    by (rule sorted_Min_nth0 [OF assms(1) ne])
  have "sorted_keys st ! 0 \<in> set (sorted_keys st)" using lt by (rule nth_mem)
  then have "sorted_keys st ! 0 \<in> dom (map_of (ring st))"
    using assms(2) by (simp add: dom_map_of_conv_image_fst)
  then obtain n where n: "map_of (ring st) (sorted_keys st ! 0) = Some n" by blast
  with lt min show ?thesis by (simp add: ring_at_def)
qed

lemma bisect_left_all_below:
  assumes "sorted a" "\<forall>y\<in>set a. y < x"
  shows "bisect_left a x = length a"
proof (rule ccontr)
  assume "bisect_left a x \<noteq> length a"
  with bisect_left_nth(1) [OF assms(1), of x] have lt: "bisect_left a x < length a" by simp
  from bisect_left_nth(3) [OF assms(1) order_refl lt] have "x \<le> a ! bisect_left a x" .
  moreover have "a ! bisect_left a x < x" using assms(2) lt by simp
  ultimately show False by simp
qed

lemma bisect_right_all_below:
  assumes "sorted a" "\<forall>y\<in>set a. y < x"
  shows "bisect_right a x = length a"
proof (rule ccontr)
  assume "bisect_right a x \<noteq> length a"
  with bisect_right_nth(1) [OF assms(1), of x] have lt: "bisect_right a x < length a" by simp
  from bisect_right_nth(3) [OF assms(1) order_refl lt] have "x < a ! bisect_right a x" .
  moreover have "a ! bisect_right a x < x" using assms(2) lt by simp
  ultimately show False by simp
qed

subsection \<open>The claims\<close>

text \<open>
  C8. Removing a node that is not in the active set is a silent no-op: no error is
  raised (the operation has no error result) and the mapping, the ordered sequence and
  the active set are unchanged. \<^verbatim>\<open>remove_node\<close> is the same in both files.
\<close>

theorem remove_node_absent_noop:
  "node \<notin> nodes st \<Longrightarrow> remove_node h st node = st"
  by (simp add: remove_node_def)

theorem remove_node_absent_noop_witness:
  "''B'' \<notin> nodes \<lparr>replicas = 1, ring = [(3, ''A'')], sorted_keys = [3], nodes = {''A''}\<rparr> \<and>
   remove_node len_hash \<lparr>replicas = 1, ring = [(3, ''A'')], sorted_keys = [3], nodes = {''A''}\<rparr> ''B''
     = \<lparr>replicas = 1, ring = [(3, ''A'')], sorted_keys = [3], nodes = {''A''}\<rparr>"
  using remove_node_absent_noop
    [of "''B''" "\<lparr>replicas = 1, ring = [(3, ''A'')], sorted_keys = [3], nodes = {''A''}\<rparr>" len_hash]
  by simp

text \<open>
  C1. For a non-empty ring that satisfies invariant I2 and every key, \<^verbatim>\<open>get_node\<close> of
  \<^verbatim>\<open>consistent_hashing.py\<close> returns the node mapped to the smallest position greater
  than or equal to the key's position (policy A), and the node of the smallest position
  of all when none qualifies. \<^verbatim>\<open>get_node\<close> of \<^verbatim>\<open>simple_hashing.py\<close> searches with
  \<^verbatim>\<open>bisect_right\<close> and returns the node of the smallest position strictly greater
  than the key's position (policy B), with the same wrap. The claim states policy A for
  both; the counterexample is a key hashed exactly onto a position of the first node of
  a ring of two.
\<close>

theorem get_node_search_policy:
  "ring_wf st \<Longrightarrow> ring st \<noteq> [] \<Longrightarrow>
   (\<exists>n. ch_get_node h st key = Inr (Some n) \<and>
        map_of (ring st) (policy_A_position (sorted_keys st) (h key)) = Some n) \<and>
   (\<exists>n. sh_get_node h st key = Inr (Some n) \<and>
        map_of (ring st) (policy_B_position (sorted_keys st) (h key)) = Some n)"
  using ch_get_node_wf [of st h key] sh_get_node_wf [of st h key] by auto

theorem get_node_search_policy_witness:
  "ring_wf \<lparr>replicas = 1, ring = [(3, ''A''), (5, ''BBB'')], sorted_keys = [3, 5],
            nodes = {''A'', ''BBB''}\<rparr> \<and>
   ring \<lparr>replicas = 1, ring = [(3, ''A''), (5, ''BBB'')], sorted_keys = [3, 5],
         nodes = {''A'', ''BBB''}\<rparr> \<noteq> [] \<and>
   ch_get_node len_hash \<lparr>replicas = 1, ring = [(3, ''A''), (5, ''BBB'')], sorted_keys = [3, 5],
         nodes = {''A'', ''BBB''}\<rparr> ''A#0'' = Inr (Some ''A'') \<and>
   policy_A_position [3, 5] (len_hash ''A#0'') = 3 \<and>
   sh_get_node len_hash \<lparr>replicas = 1, ring = [(3, ''A''), (5, ''BBB'')], sorted_keys = [3, 5],
         nodes = {''A'', ''BBB''}\<rparr> ''A#0'' = Inr (Some ''BBB'') \<and>
   policy_B_position [3, 5] (len_hash ''A#0'') = 5"
  using get_node_search_policy
    [of "\<lparr>replicas = 1, ring = [(3, ''A''), (5, ''BBB'')], sorted_keys = [3, 5],
          nodes = {''A'', ''BBB''}\<rparr>" len_hash "''A#0''"]
  by (simp add: ring_wf_def run_eval policy_A_position_def policy_B_position_def)

theorem sh_get_node_policy_counterexample:
  "sh_run len_hash (empty_ring 1) [Add ''A'', Add ''BBB'']
     = \<lparr>replicas = 1, ring = [(3, ''A''), (5, ''BBB'')], sorted_keys = [3, 5],
        nodes = {''BBB'', ''A''}\<rparr> \<and>
   len_hash ''A#0'' = 3 \<and>
   policy_A_position [3, 5] 3 = 3 \<and>
   sh_get_node len_hash (sh_run len_hash (empty_ring 1) [Add ''A'', Add ''BBB'']) ''A#0''
     = Inr (Some ''BBB'') \<and>
   sh_get_node len_hash (sh_run len_hash (empty_ring 1) [Add ''A'', Add ''BBB'']) ''A#0''
     \<noteq> Inr (map_of [(3, ''A''), (5, ''BBB'')] (policy_A_position [3, 5] 3))"
  by (simp add: run_eval policy_A_position_def)

text \<open>
  C7. The claim: on every non-empty ring, a key whose position is strictly greater than
  every placed position is resolved to the node that owns the smallest placed position,
  and the lookup does not fail. Both implementations do so on every non-empty ring whose
  ordered sequence is sorted and holds exactly the keys of the mapping, entries that
  stand twice included. The lookup fails on a ring whose ordered sequence holds a
  position that the mapping has lost: the counterexample is such a ring of
  \<^verbatim>\<open>consistent_hashing.py\<close>, after a node was added twice and removed, and one of
  \<^verbatim>\<open>simple_hashing.py\<close>, after a collision and a removal. The lost position is the
  smallest, the search wraps to it, and the mapping raises \<open>KeyError\<close>.
\<close>

theorem get_node_wraps_around:
  "sorted (sorted_keys st) \<Longrightarrow> set (sorted_keys st) = fst ` set (ring st) \<Longrightarrow>
   ring st \<noteq> [] \<Longrightarrow> \<forall>p\<in>set (sorted_keys st). p < h key \<Longrightarrow>
   \<exists>n. map_of (ring st) (Min (set (sorted_keys st))) = Some n \<and>
       ch_get_node h st key = Inr (Some n) \<and> sh_get_node h st key = Inr (Some n)"
proof -
  assume s: "sorted (sorted_keys st)" and k: "set (sorted_keys st) = fst ` set (ring st)"
    and ne: "ring st \<noteq> []" and above: "\<forall>p\<in>set (sorted_keys st). p < h key"
  have "ch_get_node h st key = ring_at st 0"
    using ne bisect_left_all_below [OF s above] by (simp add: ch_get_node_def Let_def)
  moreover have "sh_get_node h st key = ring_at st 0"
    using ne bisect_right_all_below [OF s above] by (simp add: sh_get_node_def Let_def)
  ultimately show ?thesis using wrap_lookup [OF s k ne] by auto
qed

theorem get_node_wraps_around_witness:
  "sorted (sorted_keys \<lparr>replicas = 1, ring = [(3, ''A''), (5, ''BBB'')],
                        sorted_keys = [3, 3, 5], nodes = {''A'', ''BBB''}\<rparr>) \<and>
   set (sorted_keys \<lparr>replicas = 1, ring = [(3, ''A''), (5, ''BBB'')],
                     sorted_keys = [3, 3, 5], nodes = {''A'', ''BBB''}\<rparr>)
     = fst ` set (ring \<lparr>replicas = 1, ring = [(3, ''A''), (5, ''BBB'')],
                         sorted_keys = [3, 3, 5], nodes = {''A'', ''BBB''}\<rparr>) \<and>
   len_hash ''Key100'' = 6 \<and>
   Min (set [3, 3, 5 :: nat]) = 3 \<and>
   ch_get_node len_hash \<lparr>replicas = 1, ring = [(3, ''A''), (5, ''BBB'')],
         sorted_keys = [3, 3, 5], nodes = {''A'', ''BBB''}\<rparr> ''Key100'' = Inr (Some ''A'') \<and>
   sh_get_node len_hash \<lparr>replicas = 1, ring = [(3, ''A''), (5, ''BBB'')],
         sorted_keys = [3, 3, 5], nodes = {''A'', ''BBB''}\<rparr> ''Key100'' = Inr (Some ''A'')"
  using get_node_wraps_around
    [of "\<lparr>replicas = 1, ring = [(3, ''A''), (5, ''BBB'')], sorted_keys = [3, 3, 5],
          nodes = {''A'', ''BBB''}\<rparr>" len_hash "''Key100''"]
  by (simp add: run_eval)

theorem get_node_wrap_orphan_counterexample:
  "ch_run len_hash (empty_ring 1) [Add ''A'', Add ''A'', Add ''BB'', Remove ''A'']
     = \<lparr>replicas = 1, ring = [(4, ''BB'')], sorted_keys = [3, 4], nodes = {''BB''}\<rparr> \<and>
   len_hash ''Key100'' = 6 \<and>
   ch_get_node len_hash
     (ch_run len_hash (empty_ring 1) [Add ''A'', Add ''A'', Add ''BB'', Remove ''A''])
     ''Key100'' = Inl KeyError \<and>
   sh_run len_hash (empty_ring 1) [Add ''A'', Add ''B'', Add ''CCC'', Remove ''A'']
     = \<lparr>replicas = 1, ring = [(5, ''CCC'')], sorted_keys = [3, 5], nodes = {''CCC'', ''B''}\<rparr> \<and>
   sh_get_node len_hash
     (sh_run len_hash (empty_ring 1) [Add ''A'', Add ''B'', Add ''CCC'', Remove ''A''])
     ''Key100'' = Inl KeyError"
  by (auto simp: run_eval)

text \<open>
  C3. Adding a node twice gives the same state as adding it once. This holds for
  \<^verbatim>\<open>add_node\<close> of \<^verbatim>\<open>simple_hashing.py\<close>, which returns at once for an active node.
  \<^verbatim>\<open>add_node\<close> of \<^verbatim>\<open>consistent_hashing.py\<close> has no such test: every call makes the
  ordered sequence longer by the replica count, and on a ring with one virtual node per
  node, whatever the hash function, the second call inserts the position of \<^verbatim>\<open>"A#0"\<close>
  a second time.
\<close>

theorem ch_add_node_twice_duplicates:
  "sh_add_node h (sh_add_node h st X) X = sh_add_node h st X \<and>
   length (sorted_keys (ch_add_node h (ch_add_node h st X) X))
     = length (sorted_keys (ch_add_node h st X)) + nat (replicas st) \<and>
   sorted_keys (ch_add_node h (empty_ring 1) ''A'') = [h ''A#0''] \<and>
   sorted_keys (ch_add_node h (ch_add_node h (empty_ring 1) ''A'') ''A'') = [h ''A#0'', h ''A#0''] \<and>
   ch_add_node h (ch_add_node h (empty_ring 1) ''A'') ''A'' \<noteq> ch_add_node h (empty_ring 1) ''A''"
proof -
  have "X \<in> nodes (sh_add_node h st X)" by (simp add: sh_add_node_fields)
  then have guarded: "sh_add_node h (sh_add_node h st X) X = sh_add_node h st X"
    by (rule sh_add_node_active)
  have grows: "length (sorted_keys (ch_add_node h (ch_add_node h st X) X))
     = length (sorted_keys (ch_add_node h st X)) + nat (replicas st)"
    by (simp add: ch_add_node_sorted_keys(3) ch_add_node_fields)
  have once: "sorted_keys (ch_add_node h (empty_ring 1) ''A'') = [h ''A#0'']"
    by (simp add: run_eval)
  have twice: "sorted_keys (ch_add_node h (ch_add_node h (empty_ring 1) ''A'') ''A'')
     = [h ''A#0'', h ''A#0'']"
    by (simp add: run_eval)
  from once twice
  have "ch_add_node h (ch_add_node h (empty_ring 1) ''A'') ''A'' \<noteq> ch_add_node h (empty_ring 1) ''A''"
    by auto
  with guarded grows once twice show ?thesis by blast
qed

text \<open>
  C4. The claim: \<^verbatim>\<open>remove_node\<close> deletes only positions that currently belong to the
  node and leaves a position alone that another node has overwritten. The code (the same
  in both files) has no owner check: for an active node it deletes every recomputed
  position from the mapping, whoever owns it, and pops one occurrence of each from the
  ordered sequence; every other position is left as it was. The counterexample is a
  collision of \<^verbatim>\<open>"A#0"\<close> and \<^verbatim>\<open>"B#0"\<close>: the position belongs to B when A is removed,
  and it is deleted.
\<close>

theorem remove_node_deletes_recomputed_positions:
  "node \<in> nodes st \<Longrightarrow>
   (\<forall>p. map_of (ring (remove_node h st node)) p =
          (if p \<in> set (vpos h (replicas st) node) then None else map_of (ring st) p)) \<and>
   (sorted (sorted_keys st) \<longrightarrow>
      sorted_keys (remove_node h st node)
        = foldl (\<lambda>a x. remove1 x a) (sorted_keys st) (vpos h (replicas st) node))"
  by (simp add: remove_node_map_of remove_node_keys_remove1)

theorem remove_node_deletes_recomputed_positions_witness:
  "''A'' \<in> nodes \<lparr>replicas = 1, ring = [(3, ''A''), (5, ''BBB'')], sorted_keys = [3, 5],
                   nodes = {''A'', ''BBB''}\<rparr> \<and>
   vpos len_hash 1 ''A'' = [3] \<and>
   map_of (ring (remove_node len_hash
      \<lparr>replicas = 1, ring = [(3, ''A''), (5, ''BBB'')], sorted_keys = [3, 5],
        nodes = {''A'', ''BBB''}\<rparr> ''A'')) 3 = None \<and>
   map_of (ring (remove_node len_hash
      \<lparr>replicas = 1, ring = [(3, ''A''), (5, ''BBB'')], sorted_keys = [3, 5],
        nodes = {''A'', ''BBB''}\<rparr> ''A'')) 5 = Some ''BBB'' \<and>
   sorted [3, 5 :: nat] \<and>
   sorted_keys (remove_node len_hash
      \<lparr>replicas = 1, ring = [(3, ''A''), (5, ''BBB'')], sorted_keys = [3, 5],
        nodes = {''A'', ''BBB''}\<rparr> ''A'') = [5]"
  using remove_node_deletes_recomputed_positions
    [of "''A''" "\<lparr>replicas = 1, ring = [(3, ''A''), (5, ''BBB'')], sorted_keys = [3, 5],
                   nodes = {''A'', ''BBB''}\<rparr>" len_hash]
  by (simp add: vpos_def py_range_def vnode_key_0 len_hash_def)

theorem remove_node_owner_counterexample:
  "sh_run len_hash (empty_ring 1) [Add ''A'', Add ''B'']
     = \<lparr>replicas = 1, ring = [(3, ''B'')], sorted_keys = [3, 3], nodes = {''B'', ''A''}\<rparr> \<and>
   vpos len_hash 1 ''A'' = [3] \<and>
   map_of (ring (sh_run len_hash (empty_ring 1) [Add ''A'', Add ''B''])) 3 = Some ''B'' \<and>
   map_of (ring (remove_node len_hash
                   (sh_run len_hash (empty_ring 1) [Add ''A'', Add ''B'']) ''A'')) 3 = None \<and>
   sorted_keys (remove_node len_hash
                   (sh_run len_hash (empty_ring 1) [Add ''A'', Add ''B'']) ''A'') = [3]"
  by (simp add: run_eval vpos_def)

text \<open>
  C5. The claim: after every sequence of calls the ordered sequence is strictly
  increasing and holds exactly the keys of the mapping, and a collision adds no
  duplicate. The code inserts with \<^verbatim>\<open>bisect.insort\<close> without looking for the position,
  so a collision puts it in twice. What holds after every sequence of calls, for both
  files and every hash function, is that the sequence is sorted and holds every key of
  the mapping. When no two virtual nodes of the nodes involved collide, invariant I2
  holds after every sequence of calls of \<^verbatim>\<open>simple_hashing.py\<close>, and of
  \<^verbatim>\<open>consistent_hashing.py\<close> as long as no active node is added again. Every pass of
  the loop of \<^verbatim>\<open>add_node\<close> maps its position to the node and puts the position into
  the ordered sequence once more; so when the position is already a key of the mapping,
  in a state where the sequence holds every key, the owner is overwritten and the
  sequence holds the position twice, after the pass and after the whole call.
\<close>

theorem ordered_sequence_invariant:
  "ring_weak (ch_run h (empty_ring r) ops) \<and> ring_weak (sh_run h (empty_ring r) ops) \<and>
   (no_collision h r (map op_node ops) \<longrightarrow>
      ring_wf (sh_run h (empty_ring r) ops) \<and>
      (no_readd {} ops \<longrightarrow> ring_wf (ch_run h (empty_ring r) ops))) \<and>
   map_of (ring (add_step h node st i)) (h (vnode_key node i)) = Some node \<and>
   count_list (sorted_keys (add_step h node st i)) (h (vnode_key node i))
     = Suc (count_list (sorted_keys st) (h (vnode_key node i))) \<and>
   (ring_weak st \<and> h (vnode_key node i) \<in> fst ` set (ring st) \<longrightarrow>
      \<not> distinct (sorted_keys (add_step h node st i))) \<and>
   (ring_weak st \<and> p \<in> set (vpos h (replicas st) node) \<and> p \<in> fst ` set (ring st) \<longrightarrow>
      map_of (ring (ch_add_node h st node)) p = Some node \<and>
      \<not> distinct (sorted_keys (ch_add_node h st node)) \<and>
      (node \<notin> nodes st \<longrightarrow>
         map_of (ring (sh_add_node h st node)) p = Some node \<and>
         \<not> distinct (sorted_keys (sh_add_node h st node))))"
proof -
  have reach: "ring_weak (ch_run h (empty_ring r) ops)" "ring_weak (sh_run h (empty_ring r) ops)"
    by (rule ch_run_weak [OF empty_ring_invariants(2)], rule sh_run_weak [OF empty_ring_invariants(2)])
  have strict_sh: "ring_wf (sh_run h (empty_ring r) ops)" if "no_collision h r (map op_node ops)"
    by (rule sh_run_empty_full(2) [OF that])
  have strict_ch: "ring_wf (ch_run h (empty_ring r) ops)"
    if "no_collision h r (map op_node ops)" "no_readd {} ops"
  proof -
    from that(2) have "ch_run h (empty_ring r) ops = sh_run h (empty_ring r) ops"
      using ch_run_no_readd [of "empty_ring r" ops h] by (simp add: empty_ring_invariants)
    with strict_sh [OF that(1)] show ?thesis by simp
  qed
  have over: "map_of (ring (add_step h node st i)) (h (vnode_key node i)) = Some node"
    by (simp add: add_step_simps update_conv')
  have step: "\<not> distinct (sorted_keys (add_step h node st i))"
    if "ring_weak st" "h (vnode_key node i) \<in> fst ` set (ring st)"
  proof -
    from that have "h (vnode_key node i) \<in> set (sorted_keys st)" by (auto simp: ring_weak_def)
    then show ?thesis by (rule add_step_collision)
  qed
  have call: "map_of (ring (ch_add_node h st node)) p = Some node \<and>
      \<not> distinct (sorted_keys (ch_add_node h st node)) \<and>
      (node \<notin> nodes st \<longrightarrow>
         map_of (ring (sh_add_node h st node)) p = Some node \<and>
         \<not> distinct (sorted_keys (sh_add_node h st node)))"
    if "ring_weak st" "p \<in> set (vpos h (replicas st) node)" "p \<in> fst ` set (ring st)"
  proof -
    from that(1,3) have "p \<in> set (sorted_keys st)" by (auto simp: ring_weak_def)
    from ch_add_node_collision [OF that(2) this]
    have "\<not> distinct (sorted_keys (ch_add_node h st node))" .
    moreover have "map_of (ring (ch_add_node h st node)) p = Some node"
      using that(2) by (simp add: ch_add_node_map_of)
    ultimately show ?thesis by (simp add: sh_add_node_fresh)
  qed
  from reach strict_sh strict_ch over add_step_count [of h node st i] step call
  show ?thesis by blast
qed

theorem ordered_sequence_invariant_witness:
  "no_collision len_hash 1 (map op_node [Add ''A'', Add ''BB'', Remove ''A'']) \<and>
   no_readd {} [Add ''A'', Add ''BB'', Remove ''A''] \<and>
   sh_run len_hash (empty_ring 1) [Add ''A'', Add ''BB'', Remove ''A'']
     = \<lparr>replicas = 1, ring = [(4, ''BB'')], sorted_keys = [4], nodes = {''BB''}\<rparr> \<and>
   ring_weak (ch_run len_hash (empty_ring 1) [Add ''A'', Add ''BB'', Remove ''A'']) \<and>
   ring_weak (sh_run len_hash (empty_ring 1) [Add ''A'', Add ''BB'', Remove ''A'']) \<and>
   ring_wf (sh_run len_hash (empty_ring 1) [Add ''A'', Add ''BB'', Remove ''A'']) \<and>
   ring_wf (ch_run len_hash (empty_ring 1) [Add ''A'', Add ''BB'', Remove ''A'']) \<and>
   ring_weak \<lparr>replicas = 1, ring = [(3, ''A'')], sorted_keys = [3], nodes = {''A''}\<rparr> \<and>
   len_hash (vnode_key ''B'' 0) = 3 \<and>
   vpos len_hash 1 ''B'' = [3] \<and>
   map_of (ring (add_step len_hash ''B''
      \<lparr>replicas = 1, ring = [(3, ''A'')], sorted_keys = [3], nodes = {''A''}\<rparr> 0)) 3 = Some ''B'' \<and>
   \<not> distinct (sorted_keys (add_step len_hash ''B''
      \<lparr>replicas = 1, ring = [(3, ''A'')], sorted_keys = [3], nodes = {''A''}\<rparr> 0)) \<and>
   map_of (ring (ch_add_node len_hash
      \<lparr>replicas = 1, ring = [(3, ''A'')], sorted_keys = [3], nodes = {''A''}\<rparr> ''B'')) 3 = Some ''B'' \<and>
   \<not> distinct (sorted_keys (ch_add_node len_hash
      \<lparr>replicas = 1, ring = [(3, ''A'')], sorted_keys = [3], nodes = {''A''}\<rparr> ''B'')) \<and>
   \<not> distinct (sorted_keys (sh_add_node len_hash
      \<lparr>replicas = 1, ring = [(3, ''A'')], sorted_keys = [3], nodes = {''A''}\<rparr> ''B''))"
proof -
  have nc: "no_collision len_hash 1 (map op_node [Add ''A'', Add ''BB'', Remove ''A''])"
    by (simp add: inv_eval py_range_def vnode_key_0 len_hash_def)
  have nr: "no_readd {} [Add ''A'', Add ''BB'', Remove ''A'']" by simp
  have run: "sh_run len_hash (empty_ring 1) [Add ''A'', Add ''BB'', Remove ''A'']
     = \<lparr>replicas = 1, ring = [(4, ''BB'')], sorted_keys = [4], nodes = {''BB''}\<rparr>"
    by (auto simp: run_eval)
  have weak: "ring_weak \<lparr>replicas = 1, ring = [(3, ''A'')], sorted_keys = [3], nodes = {''A''}\<rparr>"
    by (simp add: ring_weak_def)
  have pos: "len_hash (vnode_key ''B'' 0) = 3" "vpos len_hash 1 ''B'' = [3]"
    by (simp_all add: vpos_def py_range_def vnode_key_0 len_hash_def)
  from ordered_sequence_invariant
    [of len_hash 1 "[Add ''A'', Add ''BB'', Remove ''A'']" "''B''"
        "\<lparr>replicas = 1, ring = [(3, ''A'')], sorted_keys = [3], nodes = {''A''}\<rparr>" 0 3]
    nc nr run weak pos
  show ?thesis by simp
qed

theorem collision_duplicate_counterexample:
  "len_hash (vnode_key ''A'' 0) = 3 \<and> len_hash (vnode_key ''B'' 0) = 3 \<and>
   ring (sh_run len_hash (empty_ring 1) [Add ''A'', Add ''B'']) = [(3, ''B'')] \<and>
   sorted_keys (sh_run len_hash (empty_ring 1) [Add ''A'', Add ''B'']) = [3, 3] \<and>
   \<not> distinct (sorted_keys (sh_run len_hash (empty_ring 1) [Add ''A'', Add ''B''])) \<and>
   ring (sh_run len_hash (empty_ring 1) [Add ''A'', Add ''B'', Remove ''A'']) = [] \<and>
   sorted_keys (sh_run len_hash (empty_ring 1) [Add ''A'', Add ''B'', Remove ''A'']) = [3]"
  by (simp add: run_eval)

text \<open>
  C2. The claim: in every reachable state with an active node, \<^verbatim>\<open>get_node\<close> returns an
  active node and never fails. It holds for \<^verbatim>\<open>simple_hashing.py\<close> when the replica count
  is positive and no two virtual nodes of the nodes involved collide, and for
  \<^verbatim>\<open>consistent_hashing.py\<close> when in addition no active node is added again. The
  counterexample shows the three ways it fails otherwise: after a collision the removal
  of one node empties the mapping under the other; with a replica count of zero the
  mapping stays empty; and after a repeated \<^verbatim>\<open>add_node\<close> of \<^verbatim>\<open>consistent_hashing.py\<close>
  a removal leaves a position in the ordered sequence that the mapping has lost, and the
  lookup raises \<open>KeyError\<close>.
\<close>

theorem get_node_returns_active_node:
  "0 < r \<Longrightarrow> no_collision h r (map op_node ops) \<Longrightarrow>
   nodes (sh_run h (empty_ring r) ops) \<noteq> {} \<Longrightarrow>
   (\<exists>n\<in>nodes (sh_run h (empty_ring r) ops).
       sh_get_node h (sh_run h (empty_ring r) ops) key = Inr (Some n)) \<and>
   (no_readd {} ops \<longrightarrow>
      nodes (ch_run h (empty_ring r) ops) = nodes (sh_run h (empty_ring r) ops) \<and>
      (\<exists>n\<in>nodes (ch_run h (empty_ring r) ops).
          ch_get_node h (ch_run h (empty_ring r) ops) key = Inr (Some n)))"
proof -
  assume a: "0 < r" "no_collision h r (map op_node ops)"
    "nodes (sh_run h (empty_ring r) ops) \<noteq> {}"
  have eq: "ch_run h (empty_ring r) ops = sh_run h (empty_ring r) ops" if "no_readd {} ops"
    using that ch_run_no_readd [of "empty_ring r" ops h] by (simp add: empty_ring_invariants)
  from sh_reachable_lookup [OF a, of key key] eq show ?thesis by auto
qed

theorem get_node_returns_active_node_witness:
  "(0 :: int) < 1 \<and>
   no_collision len_hash 1 (map op_node [Add ''A'', Add ''BB'', Add ''CCC'', Remove ''A'']) \<and>
   no_readd {} [Add ''A'', Add ''BB'', Add ''CCC'', Remove ''A''] \<and>
   nodes (sh_run len_hash (empty_ring 1) [Add ''A'', Add ''BB'', Add ''CCC'', Remove ''A''])
     = {''CCC'', ''BB''} \<and>
   sh_get_node len_hash
     (sh_run len_hash (empty_ring 1) [Add ''A'', Add ''BB'', Add ''CCC'', Remove ''A'']) ''Key1''
     = Inr (Some ''CCC'') \<and>
   ch_get_node len_hash
     (ch_run len_hash (empty_ring 1) [Add ''A'', Add ''BB'', Add ''CCC'', Remove ''A'']) ''Key1''
     = Inr (Some ''BB'')"
proof -
  have nc: "no_collision len_hash 1
              (map op_node [Add ''A'', Add ''BB'', Add ''CCC'', Remove ''A''])"
    by (simp add: inv_eval py_range_def vnode_key_0 len_hash_def)
  have nr: "no_readd {} [Add ''A'', Add ''BB'', Add ''CCC'', Remove ''A'']" by simp
  have run: "sh_run len_hash (empty_ring 1) [Add ''A'', Add ''BB'', Add ''CCC'', Remove ''A'']
     = \<lparr>replicas = 1, ring = [(4, ''BB''), (5, ''CCC'')], sorted_keys = [4, 5],
        nodes = {''CCC'', ''BB''}\<rparr>"
    by (auto simp: run_eval)
  have run': "ch_run len_hash (empty_ring 1) [Add ''A'', Add ''BB'', Add ''CCC'', Remove ''A'']
     = \<lparr>replicas = 1, ring = [(4, ''BB''), (5, ''CCC'')], sorted_keys = [4, 5],
        nodes = {''CCC'', ''BB''}\<rparr>"
    by (auto simp: run_eval)
  from get_node_returns_active_node
    [of 1 len_hash "[Add ''A'', Add ''BB'', Add ''CCC'', Remove ''A'']" "''Key1''"] nc nr
  show ?thesis unfolding run run' by (simp add: run_eval)
qed

theorem get_node_inactive_counterexample:
  "nodes (sh_run len_hash (empty_ring 1) [Add ''A'', Add ''B'', Remove ''A'']) = {''B''} \<and>
   sh_get_node len_hash (sh_run len_hash (empty_ring 1) [Add ''A'', Add ''B'', Remove ''A''])
     ''Key1'' = Inr None \<and>
   nodes (sh_run len_hash (empty_ring 0) [Add ''A'']) = {''A''} \<and>
   sh_get_node len_hash (sh_run len_hash (empty_ring 0) [Add ''A'']) ''Key1'' = Inr None \<and>
   nodes (ch_run len_hash (empty_ring 1) [Add ''A'', Add ''A'', Add ''BB'', Remove ''A''])
     = {''BB''} \<and>
   ch_get_node len_hash
     (ch_run len_hash (empty_ring 1) [Add ''A'', Add ''A'', Add ''BB'', Remove ''A'']) ''A#0''
     = Inl KeyError"
  by (auto simp: run_eval)

text \<open>
  C9. \<^verbatim>\<open>get_node\<close> tests \<^verbatim>\<open>if not self.ring\<close>: it returns \<^verbatim>\<open>None\<close> exactly when the
  mapping is empty, in every state and without an exception. In the states reachable
  from the empty ring with a positive replica count and no collision among the virtual
  nodes of the nodes involved, the mapping is empty exactly when no node is active. The
  claim says "zero active nodes" without these conditions: the counterexample has an
  active node and an empty mapping, after a collision and with a replica count of zero.
\<close>

theorem get_node_none_iff_mapping_empty:
  "(ch_get_node h st key = Inr None \<longleftrightarrow> ring st = []) \<and>
   (sh_get_node h st key = Inr None \<longleftrightarrow> ring st = []) \<and>
   (0 < r \<and> no_collision h r (map op_node ops) \<longrightarrow>
      (ring (sh_run h (empty_ring r) ops) = [] \<longleftrightarrow> nodes (sh_run h (empty_ring r) ops) = {}) \<and>
      (ring (ch_run h (empty_ring r) ops) = [] \<longleftrightarrow> nodes (ch_run h (empty_ring r) ops) = {}))"
proof -
  have "(ring (sh_run h (empty_ring r) ops) = [] \<longleftrightarrow> nodes (sh_run h (empty_ring r) ops) = {}) \<and>
        (ring (ch_run h (empty_ring r) ops) = [] \<longleftrightarrow> nodes (ch_run h (empty_ring r) ops) = {})"
    if a: "0 < r" "no_collision h r (map op_node ops)"
  proof -
    note s = sh_run_empty_full [OF a(2)]
    note c = ch_run_empty_placed [OF a(2)]
    show ?thesis
      using placed_ring_nonempty [OF s(3)] placed_ring_empty [OF s(3)]
        placed_ring_nonempty [OF c(2)] placed_ring_empty [OF c(2)] s(1) c(1) a(1)
      by auto
  qed
  then show ?thesis by (simp add: ch_get_node_None_iff sh_get_node_None_iff)
qed

theorem get_node_none_iff_mapping_empty_witness:
  "(0 :: int) < 1 \<and> no_collision len_hash 1 (map op_node [Add ''A'', Add ''A'', Remove ''A'']) \<and>
   ring (sh_run len_hash (empty_ring 1) [Add ''A'', Add ''A'', Remove ''A'']) = [] \<and>
   nodes (sh_run len_hash (empty_ring 1) [Add ''A'', Add ''A'', Remove ''A'']) = {} \<and>
   ring (ch_run len_hash (empty_ring 1) [Add ''A'', Add ''A'', Remove ''A'']) = [] \<and>
   nodes (ch_run len_hash (empty_ring 1) [Add ''A'', Add ''A'', Remove ''A'']) = {} \<and>
   ch_get_node len_hash (ch_run len_hash (empty_ring 1) [Add ''A'', Add ''A'', Remove ''A''])
     ''Key1'' = Inr None \<and>
   sh_get_node len_hash (sh_run len_hash (empty_ring 1) [Add ''A'', Add ''A'', Remove ''A''])
     ''Key1'' = Inr None"
proof -
  have nc: "no_collision len_hash 1 (map op_node [Add ''A'', Add ''A'', Remove ''A''])"
    by (simp add: inv_eval py_range_def vnode_key_0 len_hash_def)
  have e: "ring (sh_run len_hash (empty_ring 1) [Add ''A'', Add ''A'', Remove ''A'']) = []"
    "ring (ch_run len_hash (empty_ring 1) [Add ''A'', Add ''A'', Remove ''A'']) = []"
    by (simp_all add: run_eval)
  from get_node_none_iff_mapping_empty
    [of len_hash "ch_run len_hash (empty_ring 1) [Add ''A'', Add ''A'', Remove ''A'']" "''Key1''"
        1 "[Add ''A'', Add ''A'', Remove ''A'']"]
    get_node_none_iff_mapping_empty
    [of len_hash "sh_run len_hash (empty_ring 1) [Add ''A'', Add ''A'', Remove ''A'']" "''Key1''"
        1 "[Add ''A'', Add ''A'', Remove ''A'']"]
    nc e
  show ?thesis by simp
qed

theorem get_node_none_with_active_node_counterexample:
  "nodes (ch_run len_hash (empty_ring 1) [Add ''B'', Add ''A'', Remove ''B'']) = {''A''} \<and>
   ring (ch_run len_hash (empty_ring 1) [Add ''B'', Add ''A'', Remove ''B'']) = [] \<and>
   ch_get_node len_hash (ch_run len_hash (empty_ring 1) [Add ''B'', Add ''A'', Remove ''B''])
     ''Key1'' = Inr None \<and>
   nodes (ch_run len_hash (empty_ring 0) [Add ''A'']) = {''A''} \<and>
   ring (ch_run len_hash (empty_ring 0) [Add ''A'']) = [] \<and>
   ch_get_node len_hash (ch_run len_hash (empty_ring 0) [Add ''A'']) ''Key1'' = Inr None"
  by (auto simp: run_eval)

text \<open>
  C6. Both hash functions are functions of the key alone (the model has no state and no
  random seed), the key is encoded as UTF-8, and every key has a value when the digest
  has its length. \<^verbatim>\<open>HashFunction.hash\<close> of \<^verbatim>\<open>consistent_hashing.py\<close> returns the first
  eight bytes of the SHA-1 digest read as a big-endian unsigned integer, a value below
  \<open>2 ^ 64\<close>. \<^verbatim>\<open>_hash\<close> of \<^verbatim>\<open>simple_hashing.py\<close> does not truncate: it returns the whole
  MD5 digest read as a big-endian unsigned integer, a value below \<open>2 ^ 128\<close>; for the
  empty key it is above \<open>2 ^ 64\<close>.
\<close>

theorem hash_value_ranges:
  "length (sha1 (utf8_encode key)) = 20 \<Longrightarrow> length (md5 (utf8_encode key)) = 16 \<Longrightarrow>
   HashFunction_hash sha1 key = Inr (be_nat (take 8 (sha1 (utf8_encode key)))) \<and>
   be_nat (take 8 (sha1 (utf8_encode key))) < 2 ^ 64 \<and>
   simple_hash md5 key = Inr (be_nat (md5 (utf8_encode key))) \<and>
   be_nat (md5 (utf8_encode key)) < 2 ^ 128"
proof -
  assume s: "length (sha1 (utf8_encode key)) = 20" and m: "length (md5 (utf8_encode key)) = 16"
  have "be_nat (take 8 (sha1 (utf8_encode key))) < 256 ^ 8"
    using be_nat_bound [of "take 8 (sha1 (utf8_encode key))"] s by simp
  moreover have "be_nat (md5 (utf8_encode key)) < 256 ^ 16"
    using be_nat_bound [of "md5 (utf8_encode key)"] m by simp
  moreover have "md5 (utf8_encode key) \<noteq> []" using m by auto
  ultimately show ?thesis using s by (simp add: simple_hash_value HashFunction_hash_value)
qed

theorem hash_value_ranges_witness:
  "length ((\<lambda>msg. sha1_empty_digest) (utf8_encode '''')) = 20 \<and>
   length ((\<lambda>msg. md5_empty_digest) (utf8_encode '''')) = 16 \<and>
   HashFunction_hash (\<lambda>msg. sha1_empty_digest) '''' = Inr 15724779818122431245 \<and>
   (15724779818122431245 :: nat) < 2 ^ 64 \<and>
   simple_hash (\<lambda>msg. md5_empty_digest) '''' = Inr 281949768489412648962353822266799178366 \<and>
   (281949768489412648962353822266799178366 :: nat) < 2 ^ 128"
  using hash_value_ranges [of "\<lambda>msg. sha1_empty_digest" "''''" "\<lambda>msg. md5_empty_digest"]
  by (simp add: sha1_empty_digest_def md5_empty_digest_def be_nat_def)

theorem simple_hash_exceeds_64_bits_counterexample:
  "simple_hash (\<lambda>msg. md5_empty_digest) '''' = Inr 281949768489412648962353822266799178366 \<and>
   \<not> (281949768489412648962353822266799178366 :: nat) < 2 ^ 64"
  by (simp add: simple_hash_value md5_empty_digest_def be_nat_def)




end
